theory Spec2Isabelle
  imports Complex_Main "HOL-Library.Word"
begin

section \<open>Motion-feature pipeline of the ESP32-S3 IMU sketch\<close>

text \<open>
  The second sketch of \<^verbatim>\<open>ESP32_S3___IAQ_pub_sub_01.ino\<close> samples an MPU-6500
  accelerometer at 100 Hz, high-pass filters the magnitude, keeps a sliding RMS over 25
  samples, classifies the RMS against four thresholds and publishes a JSON record.

  Conventions of the embedding:
  \<^item> the sketch's globals are the fields of the record \<open>state\<close>; every function that
    touches them takes the state and returns the new one;
  \<^item> a \<^verbatim>\<open>float\<close> is an IEEE binary32 value (\<open>fval\<close>); \<open>f32\<close> rounds a real to the
    nearest binary32 value, ties to even. The float literals and the high-pass coefficient
    carry their binary32 values. The filter recurrence and the window inside \<open>loop\<close> are
    kept in exact arithmetic on \<open>real\<close>; \<open>rmsPush32\<close> is \<open>rmsPush\<close> with every operation
    rounded as the sketch rounds it;
  \<^item> \<^verbatim>\<open>millis()\<close>, \<^verbatim>\<open>unsigned long\<close> and \<^verbatim>\<open>uint32_t\<close> are 32-bit words
    (the ESP32 is an ILP32 target), with the wrap-around of the hardware;
  \<^item> the I2C bus is an input: the six bytes the read returned, or \<open>None\<close> when
    \<^verbatim>\<open>i2cReadN\<close> failed;
  \<^item> \<^verbatim>\<open>mqtt.publish\<close> appends to a log kept in the state.
\<close>

subsection \<open>Binary32 values\<close>

text \<open>
  A \<^verbatim>\<open>float\<close> is a finite number, an infinity or a NaN. \<open>fge\<close> is the C operator
  \<^verbatim>\<open>>=\<close> on such values: any comparison with a NaN operand is false. The sign of a
  zero is not kept; it shows only in a division by zero, which is taken as a division by
  \<open>+0\<close>.
\<close>

datatype fval = Fin real | PosInf | NegInf | NaN

fun fge :: "fval \<Rightarrow> fval \<Rightarrow> bool" where
  "fge NaN _ = False"
| "fge _ NaN = False"
| "fge PosInf _ = True"
| "fge _ NegInf = True"
| "fge NegInf _ = False"
| "fge _ PosInf = False"
| "fge (Fin a) (Fin b) = (b \<le> a)"

text \<open>
  Rounding to binary32, to nearest with ties to even: \<open>rne\<close> rounds to an integer,
  \<open>f32\<close> scales by the unit in the last place of the binade of its argument (24
  significant bits, least exponent \<open>-126\<close>, so subnormals are included) and leaves the
  exponent unbounded above; \<open>rnd\<close> adds the overflow to an infinity.
\<close>

definition rne :: "real \<Rightarrow> int" where
  "rne x = (let n = \<lfloor>x\<rfloor>; d = x - of_int n
            in if d < 1 / 2 then n else if 1 / 2 < d then n + 1 else if even n then n else n + 1)"

definition f32 :: "real \<Rightarrow> real" where
  "f32 x = (if x = 0 then 0
            else let e = max \<lfloor>log 2 \<bar>x\<bar>\<rfloor> (- 126); u = 2 powi (e - 23)
                 in of_int (rne (x / u)) * u)"

definition FLT_MAX :: real where
  "FLT_MAX = (2 ^ 24 - 1) * 2 ^ 104"

definition rnd :: "real \<Rightarrow> fval" where
  "rnd x = (let y = f32 x
            in if FLT_MAX < y then PosInf else if y < - FLT_MAX then NegInf else Fin y)"

text \<open>The operations of C on \<^verbatim>\<open>float\<close>: the exact result, rounded; the IEEE special cases.\<close>

fun fneg :: "fval \<Rightarrow> fval" where
  "fneg (Fin a) = Fin (- a)"
| "fneg PosInf = NegInf"
| "fneg NegInf = PosInf"
| "fneg NaN = NaN"

fun fadd :: "fval \<Rightarrow> fval \<Rightarrow> fval" where
  "fadd NaN _ = NaN"
| "fadd _ NaN = NaN"
| "fadd PosInf NegInf = NaN"
| "fadd NegInf PosInf = NaN"
| "fadd PosInf _ = PosInf"
| "fadd _ PosInf = PosInf"
| "fadd NegInf _ = NegInf"
| "fadd _ NegInf = NegInf"
| "fadd (Fin a) (Fin b) = rnd (a + b)"

definition fsub :: "fval \<Rightarrow> fval \<Rightarrow> fval" where
  "fsub x y = fadd x (fneg y)"

fun fmul :: "fval \<Rightarrow> fval \<Rightarrow> fval" where
  "fmul NaN _ = NaN"
| "fmul _ NaN = NaN"
| "fmul (Fin a) (Fin b) = rnd (a * b)"
| "fmul (Fin a) PosInf = (if a = 0 then NaN else if 0 < a then PosInf else NegInf)"
| "fmul (Fin a) NegInf = (if a = 0 then NaN else if 0 < a then NegInf else PosInf)"
| "fmul PosInf (Fin b) = (if b = 0 then NaN else if 0 < b then PosInf else NegInf)"
| "fmul NegInf (Fin b) = (if b = 0 then NaN else if 0 < b then NegInf else PosInf)"
| "fmul PosInf PosInf = PosInf"
| "fmul NegInf NegInf = PosInf"
| "fmul PosInf NegInf = NegInf"
| "fmul NegInf PosInf = NegInf"

fun fdiv :: "fval \<Rightarrow> fval \<Rightarrow> fval" where
  "fdiv NaN _ = NaN"
| "fdiv _ NaN = NaN"
| "fdiv (Fin a) (Fin b) =
     (if b = 0 then (if a = 0 then NaN else if 0 < a then PosInf else NegInf)
      else rnd (a / b))"
| "fdiv (Fin a) PosInf = Fin 0"
| "fdiv (Fin a) NegInf = Fin 0"
| "fdiv PosInf (Fin b) = (if 0 \<le> b then PosInf else NegInf)"
| "fdiv NegInf (Fin b) = (if 0 \<le> b then NegInf else PosInf)"
| "fdiv PosInf PosInf = NaN"
| "fdiv PosInf NegInf = NaN"
| "fdiv NegInf PosInf = NaN"
| "fdiv NegInf NegInf = NaN"

fun fsqrt :: "fval \<Rightarrow> fval" where
  "fsqrt NaN = NaN"
| "fsqrt PosInf = PosInf"
| "fsqrt NegInf = NaN"
| "fsqrt (Fin a) = (if a < 0 then NaN else rnd (sqrt a))"

subsection \<open>Constants\<close>

type_synonym u8 = "8 word"
type_synonym u32 = "32 word"

definition HEARTBEAT_EVERY_MS :: u32 where "HEARTBEAT_EVERY_MS = 5000"
definition PUBLISH_EVERY_MS :: u32 where "PUBLISH_EVERY_MS = 50"
definition LSB_PER_G :: real where "LSB_PER_G = 8192"
definition FS_HZ :: real where "FS_HZ = 100"
definition DT_MS :: u32 where "DT_MS = 10"
definition HP_FC_HZ :: real where "HP_FC_HZ = 1 / 2"
definition RMS_WIN :: nat where "RMS_WIN = 25"

text \<open>
  The three float constants above are binary32 values as written. The thresholds are
  globals with the initialisers \<^verbatim>\<open>0.03f\<close>, \<^verbatim>\<open>0.10f\<close>, \<^verbatim>\<open>0.20f\<close> and \<^verbatim>\<open>0.35f\<close>,
  which no statement of the sketch assigns: each is the binary32 value nearest to its
  decimal.
\<close>

definition TH_STRUCT :: real where "TH_STRUCT = f32 (3 / 100)"
definition TH_FOOT :: real where "TH_FOOT = f32 (10 / 100)"
definition TH_KID :: real where "TH_KID = f32 (20 / 100)"
definition TH_JUMP :: real where "TH_JUMP = f32 (35 / 100)"

subsection \<open>The classifier\<close>

definition classifyLabel :: "fval \<Rightarrow> string" where
  "classifyLabel rms =
     (if fge rms (Fin TH_JUMP) then ''JUMP''
      else if fge rms (Fin TH_KID) then ''PLAY''
      else if fge rms (Fin TH_FOOT) then ''FOOT''
      else if fge rms (Fin TH_STRUCT) then ''STRUCT''
      else ''CALM'')"

subsection \<open>Globals\<close>

text \<open>The JSON document published on \<^verbatim>\<open>smarthome/imu\<close>, one field per key.\<close>

record imu_json =
  j_ms :: u32
  j_ax :: real
  j_ay :: real
  j_az :: real
  j_mag :: real
  j_hp_abs :: real
  j_rms :: real
  j_label :: string

text \<open>
  \<open>rmsCount\<close> and \<open>rmsHead\<close> are \<^verbatim>\<open>uint16_t\<close> in the sketch. The only writes are
  \<^verbatim>\<open>rmsCount++\<close> under the guard \<^verbatim>\<open>rmsCount < RMS_WIN\<close> and
  \<^verbatim>\<open>(rmsHead + 1) % RMS_WIN\<close>, neither of which can leave 16 bits, so they are \<open>nat\<close>.
  \<open>rmsBuf\<close> is a list of length \<open>RMS_WIN\<close>; the sketch indexes it with \<open>rmsHead\<close> only,
  which stays below \<open>RMS_WIN\<close> (lemma \<open>rmsPush_head_bound\<close> below), so no access is out
  of range. \<open>imuLog\<close> and \<open>heartbeatLog\<close> record the calls of \<^verbatim>\<open>mqtt.publish\<close> on the
  two topics, oldest first.
\<close>

record state =
  lastHeartbeatMs :: u32
  lastImuPublishMs :: u32
  mpuAddr :: u8
  nextTick :: u32
  hp_alpha :: real
  mag_prev :: real
  hp_prev :: real
  rmsBuf :: "real list"
  rmsCount :: nat
  rmsHead :: nat
  rmsSumSq :: real
  imuLog :: "imu_json list"
  heartbeatLog :: "u32 list"

text \<open>The globals as the C start-up code leaves them: the initialisers, zero elsewhere.\<close>

definition globals0 :: state where
  "globals0 = \<lparr> lastHeartbeatMs = 0, lastImuPublishMs = 0, mpuAddr = 0, nextTick = 0,
      hp_alpha = 0, mag_prev = 0, hp_prev = 0,
      rmsBuf = replicate RMS_WIN 0, rmsCount = 0, rmsHead = 0, rmsSumSq = 0,
      imuLog = [], heartbeatLog = [] \<rparr>"

subsection \<open>High-pass coefficient and initialisation\<close>

text \<open>
  \<^verbatim>\<open>hpAlpha\<close>, each operation rounded to binary32, the literal \<^verbatim>\<open>3.1415926f\<close>
  included. The arguments are finite binary32 values that keep every intermediate result
  finite and every divisor non-zero, as those of the sketch's one call do.
\<close>

definition hpAlpha :: "real \<Rightarrow> real \<Rightarrow> real" where
  "hpAlpha fs fc =
     (let dt = f32 (1 / fs);
          RC = f32 (1 / f32 (f32 (2 * f32 (31415926 / 10000000)) * fc))
      in f32 (RC / f32 (RC + dt)))"

text \<open>
  \<open>mpuInit\<close> scans the bus addresses 1 to 126 and keeps the first of the two probe
  addresses that acknowledges, then probes the two again; \<open>ack\<close> is the bus's answer and
  \<open>millis\<close> the clock read at the end. The register writes have no effect on the globals.
  The coefficient and the first due time are set only when a device was found.
\<close>

definition mpuInit :: "(u8 \<Rightarrow> bool) \<Rightarrow> u32 \<Rightarrow> state \<Rightarrow> bool \<times> state" where
  "mpuInit ack millis s =
     (let addrProbeA = 0x68; addrProbeB = 0x69;
          s1 = foldl (\<lambda>st a.
                 if ack a \<and> (a = addrProbeA \<or> a = addrProbeB) \<and> mpuAddr st = 0
                 then st\<lparr>mpuAddr := a\<rparr> else st)
               s (map of_nat [1..<127]);
          s2 = (if mpuAddr s1 = 0
                then (if ack addrProbeA then s1\<lparr>mpuAddr := addrProbeA\<rparr>
                      else if ack addrProbeB then s1\<lparr>mpuAddr := addrProbeB\<rparr>
                      else s1)
                else s1)
      in if mpuAddr s2 = 0 then (False, s2)
         else (True, s2\<lparr>hp_alpha := hpAlpha FS_HZ HP_FC_HZ, nextTick := millis\<rparr>))"

text \<open>
  The globals after a successful \<open>mpuInit\<close> at clock value \<open>ms\<close> with the device
  at address 0x68 (lemma \<open>mpuInit_found\<close>).
\<close>

definition ready0 :: "u32 \<Rightarrow> state" where
  "ready0 ms = globals0\<lparr>mpuAddr := 0x68, hp_alpha := hpAlpha FS_HZ HP_FC_HZ, nextTick := ms\<rparr>"

subsection \<open>Reading the accelerometer\<close>

type_synonym raw6 = "u8 \<times> u8 \<times> u8 \<times> u8 \<times> u8 \<times> u8"

text \<open>\<^verbatim>\<open>(int16_t)((hi << 8) | lo)\<close>: the two bytes as a signed 16-bit number.\<close>

definition be16 :: "u8 \<Rightarrow> u8 \<Rightarrow> int" where
  "be16 hi lo = sint (ucast (or (push_bit 8 (ucast hi :: u32)) (ucast lo)) :: 16 word)"

text \<open>
  The argument is what \<^verbatim>\<open>i2cReadN\<close> delivered (\<open>None\<close>: it returned false). The result
  is \<open>None\<close> where the sketch returns false and leaves the three references untouched.
\<close>

definition readAccel_g :: "raw6 option \<Rightarrow> (real \<times> real \<times> real) option" where
  "readAccel_g rd =
     (case rd of
        None \<Rightarrow> None
      | Some (r0, r1, r2, r3, r4, r5) \<Rightarrow>
          let ax_raw = be16 r0 r1; ay_raw = be16 r2 r3; az_raw = be16 r4 r5
          in Some (real_of_int ax_raw / LSB_PER_G,
                   real_of_int ay_raw / LSB_PER_G,
                   real_of_int az_raw / LSB_PER_G))"

subsection \<open>Sliding RMS\<close>

text \<open>
  The statements of \<^verbatim>\<open>rmsPush\<close> in their order, in exact arithmetic; the result is
  the returned value and the globals after the call. \<^verbatim>\<open>sqrtf\<close> of a negative number is
  a NaN where \<open>sqrt\<close> is odd, but in exact arithmetic the running sum is a sum of squares
  on every state a run reaches, so the argument is never negative there. The binary32
  version is \<open>rmsPush32\<close> below.
\<close>

definition rmsPush :: "real \<Rightarrow> state \<Rightarrow> real \<times> state" where
  "rmsPush sampleAbs s =
     (let s2 = sampleAbs * sampleAbs;
          s' = (if rmsCount s < RMS_WIN
                then s\<lparr> rmsBuf := (rmsBuf s)[rmsHead s := sampleAbs],
                        rmsSumSq := rmsSumSq s + s2,
                        rmsHead := (rmsHead s + 1) mod RMS_WIN,
                        rmsCount := rmsCount s + 1 \<rparr>
                else let tail = rmsHead s;
                         old = rmsBuf s ! tail
                     in s\<lparr> rmsSumSq := rmsSumSq s - old * old + s2,
                            rmsBuf := (rmsBuf s)[tail := sampleAbs],
                            rmsHead := (rmsHead s + 1) mod RMS_WIN \<rparr>);
          n = (if rmsCount s' \<noteq> 0 then rmsCount s' else 1)
      in (sqrt (rmsSumSq s' / real n), s'))"

subsection \<open>The main loop\<close>

text \<open>
  One pass of \<^verbatim>\<open>loop()\<close>, in its two sections. \<open>now\<close> is the value \<^verbatim>\<open>millis()\<close>
  returned in this pass and \<open>rd\<close> what the bus would deliver; \<open>rd\<close> is consumed only when
  the read is attempted. The connectivity calls at the top of the pass touch none of
  these globals, and the final \<^verbatim>\<open>delay(2)\<close> shows only in the next pass's \<open>now\<close>.
\<close>

text \<open>
  The two statements of the pass that update the high-pass filter (the lines after the
  magnitude is computed), as a function of their own so that they can be iterated: the new
  output from the new magnitude, then both remembered.
\<close>

definition hpUpdate :: "real \<Rightarrow> state \<Rightarrow> real \<times> state" where
  "hpUpdate mag s =
     (let hp = hp_alpha s * (hp_prev s + (mag - mag_prev s))
      in (hp, s\<lparr>hp_prev := hp, mag_prev := mag\<rparr>))"

text \<open>
  The two guards of the pass: \<^verbatim>\<open>(int32_t)(now - nextTick) >= 0\<close>, a signed reading of the
  wrapped difference, and \<^verbatim>\<open>now - lastImuPublishMs >= PUBLISH_EVERY_MS\<close>, an unsigned one.
\<close>

definition tickDue :: "u32 \<Rightarrow> state \<Rightarrow> bool" where
  "tickDue now s \<longleftrightarrow> 0 \<le> sint (now - nextTick s)"

definition publishDue :: "u32 \<Rightarrow> state \<Rightarrow> bool" where
  "publishDue now s \<longleftrightarrow> PUBLISH_EVERY_MS \<le> now - lastImuPublishMs s"

definition loopImu :: "u32 \<Rightarrow> raw6 option \<Rightarrow> state \<Rightarrow> state" where
  "loopImu now rd s =
     (if tickDue now s then
        let s1 = s\<lparr>nextTick := nextTick s + DT_MS\<rparr> in
        if mpuAddr s1 \<noteq> 0 then
          (case readAccel_g rd of
             None \<Rightarrow> s1
           | Some (ax, ay, az) \<Rightarrow>
               let mag = sqrt (ax * ax + ay * ay + az * az);
                   (hp, s2) = hpUpdate mag s1;
                   hp_abs = \<bar>hp\<bar>;
                   (rms, s3) = rmsPush hp_abs s2;
                   label = classifyLabel (Fin rms)
               in if publishDue now s3 then
                    s3\<lparr> lastImuPublishMs := now,
                        imuLog := imuLog s3 @
                          [\<lparr> j_ms = now, j_ax = ax, j_ay = ay, j_az = az, j_mag = mag,
                             j_hp_abs = hp_abs, j_rms = rms, j_label = label \<rparr>] \<rparr>
                  else s3)
        else s1
      else s)"

definition loopHeartbeat :: "u32 \<Rightarrow> state \<Rightarrow> state" where
  "loopHeartbeat now s =
     (if HEARTBEAT_EVERY_MS \<le> now - lastHeartbeatMs s
      then s\<lparr>lastHeartbeatMs := now, heartbeatLog := heartbeatLog s @ [now]\<rparr>
      else s)"

definition loop :: "u32 \<Rightarrow> raw6 option \<Rightarrow> state \<Rightarrow> state" where
  "loop now rd s = loopHeartbeat now (loopImu now rd s)"

text \<open>A run of the firmware after \<open>setup\<close>: the passes of \<open>loop\<close> in order.\<close>

fun loopRun :: "(u32 \<times> raw6 option) list \<Rightarrow> state \<Rightarrow> state" where
  "loopRun [] s = s"
| "loopRun ((now, rd) # ins) s = loopRun ins (loop now rd s)"

text \<open>
  The passes of a run described by how many milliseconds each comes after the one before,
  the first that long after clock value \<open>t\<close>.
\<close>

fun passes :: "u32 \<Rightarrow> (nat \<times> raw6 option) list \<Rightarrow> (u32 \<times> raw6 option) list" where
  "passes t [] = []"
| "passes t ((g, rd) # gs) = (t + of_nat g, rd) # passes (t + of_nat g) gs"

text \<open>The number of passes of a run in which the sample tick fired.\<close>

fun firedTicks :: "(u32 \<times> raw6 option) list \<Rightarrow> state \<Rightarrow> nat" where
  "firedTicks [] s = 0"
| "firedTicks ((now, rd) # ins) s =
     (if tickDue now s then 1 else 0) + firedTicks ins (loop now rd s)"


text \<open>
  The globals the pipeline owns: filter, window, and the publish bookkeeping. The schedule
  (\<open>nextTick\<close>), the device address and the heartbeat are left out.
\<close>

definition pipeline ::
  "state \<Rightarrow> real \<times> real \<times> real \<times> real list \<times> nat \<times> nat \<times> real \<times> u32 \<times> imu_json list" where
  "pipeline s = (hp_alpha s, hp_prev s, mag_prev s, rmsBuf s, rmsCount s, rmsHead s,
                 rmsSumSq s, lastImuPublishMs s, imuLog s)"

text \<open>
  Feeding a list of samples to the RMS window, and the value the last push returns
  (\<open>rmsLast\<close> is meant for a non-empty list).
\<close>

fun rmsFeed :: "real list \<Rightarrow> state \<Rightarrow> state" where
  "rmsFeed [] s = s"
| "rmsFeed (v # vs) s = rmsFeed vs (snd (rmsPush v s))"

definition rmsLast :: "real list \<Rightarrow> state \<Rightarrow> real" where
  "rmsLast vs s = fst (rmsPush (last vs) (rmsFeed (butlast vs) s))"

subsection \<open>Sliding RMS in binary32\<close>

text \<open>
  The window as the sketch computes it: the same statements as \<open>rmsPush\<close>, with the
  buffer and the running sum holding binary32 values and every operation rounded. The
  count is converted to \<^verbatim>\<open>float\<close> for the division, exactly.
\<close>

record window32 =
  rmsBuf32 :: "fval list"
  rmsCount32 :: nat
  rmsHead32 :: nat
  rmsSumSq32 :: fval

definition window0 :: window32 where
  "window0 = \<lparr> rmsBuf32 = replicate RMS_WIN (Fin 0), rmsCount32 = 0, rmsHead32 = 0,
               rmsSumSq32 = Fin 0 \<rparr>"

definition rmsPush32 :: "fval \<Rightarrow> window32 \<Rightarrow> fval \<times> window32" where
  "rmsPush32 sampleAbs w =
     (let s2 = fmul sampleAbs sampleAbs;
          w' = (if rmsCount32 w < RMS_WIN
                then w\<lparr> rmsBuf32 := (rmsBuf32 w)[rmsHead32 w := sampleAbs],
                        rmsSumSq32 := fadd (rmsSumSq32 w) s2,
                        rmsHead32 := (rmsHead32 w + 1) mod RMS_WIN,
                        rmsCount32 := rmsCount32 w + 1 \<rparr>
                else let tail = rmsHead32 w;
                         old = rmsBuf32 w ! tail
                     in w\<lparr> rmsSumSq32 := fadd (fsub (rmsSumSq32 w) (fmul old old)) s2,
                            rmsBuf32 := (rmsBuf32 w)[tail := sampleAbs],
                            rmsHead32 := (rmsHead32 w + 1) mod RMS_WIN \<rparr>);
          n = (if rmsCount32 w' \<noteq> 0 then rmsCount32 w' else 1)
      in (fsqrt (fdiv (rmsSumSq32 w') (Fin (real n))), w'))"

fun rmsFeed32 :: "fval list \<Rightarrow> window32 \<Rightarrow> window32" where
  "rmsFeed32 [] w = w"
| "rmsFeed32 (v # vs) w = rmsFeed32 vs (snd (rmsPush32 v w))"

definition rmsLast32 :: "fval list \<Rightarrow> window32 \<Rightarrow> fval" where
  "rmsLast32 vs w = fst (rmsPush32 (last vs) (rmsFeed32 (butlast vs) w))"

section \<open>Properties\<close>

subsection \<open>Rounding to binary32\<close>

text \<open>
  \<open>f32\<close> on a given binade, and its fixed points: a value with at most 24 significant
  bits and an exponent in range is not changed.
\<close>

lemma rne_of_int: "rne (of_int n) = n"
  by (simp add: rne_def)

lemma floor_log2:
  assumes "2 powi e \<le> \<bar>x\<bar>" "\<bar>x\<bar> < 2 powi (e + 1)"
  shows "\<lfloor>log 2 \<bar>x\<bar>\<rfloor> = e"
proof -
  have "0 < (2 :: real) powi e" by simp
  with assms(1) have pos: "0 < \<bar>x\<bar>" by linarith
  have p: "(2 :: real) powr real_of_int e = 2 powi e"
    "(2 :: real) powr real_of_int (e + 1) = 2 powi (e + 1)"
    by (rule powr_real_of_int'; simp)+
  show ?thesis
  proof (rule floor_log_eq_powr_iff [THEN iffD2, OF pos])
    show "(1 :: real) < 2" by simp
    show "2 powr real_of_int e \<le> \<bar>x\<bar> \<and> \<bar>x\<bar> < 2 powr real_of_int (e + 1)"
      unfolding p using assms by blast
  qed
qed

lemma f32_at:
  assumes "2 powi e \<le> \<bar>x\<bar>" "\<bar>x\<bar> < 2 powi (e + 1)" "- 126 \<le> e"
  shows "f32 x = of_int (rne (x / 2 powi (e - 23))) * 2 powi (e - 23)"
proof -
  have "0 < (2 :: real) powi e" by simp
  with assms(1) have "0 < \<bar>x\<bar>" by linarith
  then have "x \<noteq> 0" by simp
  then show ?thesis
    using assms(3) by (simp add: f32_def floor_log2 [OF assms(1,2)] max_def Let_def)
qed

lemma f32_dyadic:
  assumes "\<bar>m\<bar> < 2 ^ 24" "- 149 \<le> k"
  shows "f32 (of_int m * 2 powi k) = of_int m * 2 powi k"
proof (cases "m = 0")
  case True
  then show ?thesis by (simp add: f32_def)
next
  case False
  let ?x = "real_of_int m * 2 powi k"
  let ?E = "max \<lfloor>log 2 \<bar>?x\<bar>\<rfloor> (- 126)"
  have x0: "?x \<noteq> 0" using False by simp
  have "\<bar>?x\<bar> = \<bar>real_of_int m\<bar> * 2 powi k" by (simp add: abs_mult)
  also have "\<dots> < 2 ^ 24 * 2 powi k"
  proof (intro mult_strict_right_mono)
    have "real_of_int \<bar>m\<bar> < real_of_int (2 ^ 24)"
      using assms(1) by (simp only: of_int_less_iff)
    then show "\<bar>real_of_int m\<bar> < 2 ^ 24" by simp
  qed simp
  also have "\<dots> = 2 powi (k + 24)"
    by (simp add: power_int_add)
  finally have "\<bar>?x\<bar> < 2 powi (k + 24)" .
  moreover have "(2 :: real) powr real_of_int (k + 24) = 2 powi (k + 24)"
    by (rule powr_real_of_int') simp_all
  ultimately have lt: "\<bar>?x\<bar> < 2 powr real_of_int (k + 24)"
    by (simp only:)
  have "0 < \<bar>?x\<bar>" using x0 by simp
  then have "log 2 \<bar>?x\<bar> < real_of_int (k + 24)"
    using lt by (simp only: log_less_iff [of 2, simplified])
  then have "\<lfloor>log 2 \<bar>?x\<bar>\<rfloor> < k + 24"
    by (simp add: floor_less_iff)
  with assms(2) have E': "?E \<le> k + 23" by simp
  define E where "E = ?E"
  define u where "u = (2 :: real) powi (E - 23)"
  define j where "j = nat (k + 23 - E)"
  have u0: "u \<noteq> 0" by (simp add: u_def)
  have "k = (E - 23) + int j" using E' by (simp add: j_def E_def)
  then have pk: "(2 :: real) powi k = u * 2 ^ j"
    unfolding u_def by (metis power_int_add power_int_of_nat zero_neq_numeral)
  have "?x / u = real_of_int m * 2 ^ j"
    unfolding pk using u0 by simp
  then have "?x / u = of_int (m * 2 ^ j)"
    by simp
  then have r: "rne (?x / u) = m * 2 ^ j"
    by (simp only: rne_of_int)
  have "f32 ?x = of_int (rne (?x / u)) * u"
    using x0 by (simp add: f32_def Let_def E_def u_def)
  also have "\<dots> = real_of_int m * (u * 2 ^ j)"
    unfolding r by simp
  also have "\<dots> = ?x"
    unfolding pk ..
  finally show ?thesis .
qed

lemma rnd_dyadic:
  assumes "\<bar>m\<bar> < 2 ^ 24" "- 149 \<le> k" "k \<le> 104"
  shows "rnd (of_int m * 2 powi k) = Fin (of_int m * 2 powi k)"
proof -
  have "\<bar>real_of_int m * 2 powi k\<bar> = \<bar>real_of_int m\<bar> * 2 powi k"
    by (simp add: abs_mult)
  also have "\<dots> \<le> (2 ^ 24 - 1) * 2 powi k"
  proof (intro mult_right_mono)
    have "\<bar>m\<bar> \<le> 2 ^ 24 - 1" using assms(1) by simp
    then have "real_of_int \<bar>m\<bar> \<le> real_of_int (2 ^ 24 - 1)" by (rule of_int_le_iff [THEN iffD2])
    then show "\<bar>real_of_int m\<bar> \<le> 2 ^ 24 - 1" by simp
  qed simp
  also have "\<dots> \<le> (2 ^ 24 - 1) * 2 powi 104"
    using assms(3) by (intro mult_left_mono power_int_increasing) simp_all
  finally have "\<bar>real_of_int m * 2 powi k\<bar> \<le> FLT_MAX"
    by (simp add: FLT_MAX_def)
  then show ?thesis
    by (simp add: rnd_def f32_dyadic [OF assms(1,2)] Let_def abs_le_iff)
qed

lemma rnd_int: "\<bar>m\<bar> < 2 ^ 24 \<Longrightarrow> rnd (of_int m) = Fin (of_int m)"
  using rnd_dyadic [of m 0] by simp

lemmas f32_eval = rne_def Let_def power_int_minus

lemma threshold_values:
  "TH_STRUCT = 16106127 / 536870912" "TH_FOOT = 13421773 / 134217728"
  "TH_KID = 13421773 / 67108864" "TH_JUMP = 11744051 / 33554432"
  by (simp_all add: TH_STRUCT_def TH_FOOT_def TH_KID_def TH_JUMP_def
      f32_at [where e = "- 6"] f32_at [where e = "- 4"] f32_at [where e = "- 3"]
      f32_at [where e = "- 2"] f32_eval)

subsection \<open>The sliding RMS window\<close>

text \<open>What one push does to each global, read off the definition.\<close>

lemma rmsPush_count: "rmsCount (snd (rmsPush v s)) = (if rmsCount s < RMS_WIN then rmsCount s + 1 else rmsCount s)"
  by (simp add: rmsPush_def Let_def)
lemma rmsPush_head: "rmsHead (snd (rmsPush v s)) = (rmsHead s + 1) mod RMS_WIN"
  by (simp add: rmsPush_def Let_def)
lemma rmsPush_buf: "rmsBuf (snd (rmsPush v s)) = (rmsBuf s)[rmsHead s := v]"
  by (simp add: rmsPush_def Let_def)
lemma rmsPush_sum: "rmsSumSq (snd (rmsPush v s)) =
   (if rmsCount s < RMS_WIN then rmsSumSq s + v * v else rmsSumSq s - rmsBuf s ! rmsHead s * rmsBuf s ! rmsHead s + v * v)"
  by (simp add: rmsPush_def Let_def)
lemma rmsPush_ret: "fst (rmsPush v s) = sqrt (rmsSumSq (snd (rmsPush v s)) / real (max (rmsCount (snd (rmsPush v s))) 1))"
  by (simp add: rmsPush_def Let_def max_def)
lemma rmsPush_others:
  "hp_alpha (snd (rmsPush v s)) = hp_alpha s" "hp_prev (snd (rmsPush v s)) = hp_prev s"
  "mag_prev (snd (rmsPush v s)) = mag_prev s" "nextTick (snd (rmsPush v s)) = nextTick s"
  "mpuAddr (snd (rmsPush v s)) = mpuAddr s" "lastImuPublishMs (snd (rmsPush v s)) = lastImuPublishMs s"
  "lastHeartbeatMs (snd (rmsPush v s)) = lastHeartbeatMs s" "imuLog (snd (rmsPush v s)) = imuLog s"
  "heartbeatLog (snd (rmsPush v s)) = heartbeatLog s"
  by (simp_all add: rmsPush_def Let_def)

lemma rmsPush_head_bound: "rmsHead (snd (rmsPush v s)) < RMS_WIN"
  by (simp add: rmsPush_head RMS_WIN_def)

lemma rmsFeed_snoc: "rmsFeed (vs @ [v]) s = snd (rmsPush v (rmsFeed vs s))"
  by (induction vs arbitrary: s) simp_all

lemma rmsFeed_shape:
  "length (rmsBuf (rmsFeed vs globals0)) = RMS_WIN \<and>
   rmsCount (rmsFeed vs globals0) = min (length vs) RMS_WIN \<and>
   rmsHead (rmsFeed vs globals0) = length vs mod RMS_WIN"
proof (induction vs rule: rev_induct)
  case Nil
  show ?case by (simp add: globals0_def)
next
  case (snoc v vs)
  then show ?case
    by (simp add: rmsFeed_snoc rmsPush_count rmsPush_head rmsPush_buf mod_Suc_eq min_def)
qed

lemma rmsFeed_slot:
  "j < length vs \<Longrightarrow> length vs \<le> j + RMS_WIN \<Longrightarrow>
   rmsBuf (rmsFeed vs globals0) ! (j mod RMS_WIN) = vs ! j"
proof (induction vs rule: rev_induct)
  case Nil
  then show ?case by simp
next
  case (snoc v vs)
  let ?s = "rmsFeed vs globals0"
  have len: "length (rmsBuf ?s) = RMS_WIN" and hd: "rmsHead ?s = length vs mod RMS_WIN"
    using rmsFeed_shape [of vs] by simp_all
  show ?case
  proof (cases "j = length vs")
    case True
    then show ?thesis
      by (simp add: rmsFeed_snoc rmsPush_buf len hd RMS_WIN_def)
  next
    case False
    with snoc.prems have jl: "j < length vs" and near: "length vs \<le> j + RMS_WIN" and gap: "length vs - j < RMS_WIN"
      by simp_all
    have "j mod RMS_WIN \<noteq> length vs mod RMS_WIN"
    proof
      assume "j mod RMS_WIN = length vs mod RMS_WIN"
      then have "(length vs - j) mod RMS_WIN = 0"
        using jl by (metis less_imp_le_nat mod_eq_dvd_iff_nat dvd_imp_mod_0)
      with gap jl show False by (simp add: RMS_WIN_def)
    qed
    then show ?thesis
      using snoc.IH [OF jl near] jl by (simp add: rmsFeed_snoc rmsPush_buf hd nth_append)
  qed
qed


lemma rmsFeed_sum:
  "rmsSumSq (rmsFeed vs globals0) = (\<Sum>x\<leftarrow>drop (length vs - RMS_WIN) vs. x * x)"
proof (induction vs rule: rev_induct)
  case Nil
  show ?case by (simp add: globals0_def)
next
  case (snoc v vs)
  let ?s = "rmsFeed vs globals0"
  have cnt: "rmsCount ?s = min (length vs) RMS_WIN" and hd: "rmsHead ?s = length vs mod RMS_WIN"
    using rmsFeed_shape [of vs] by simp_all
  show ?case
  proof (cases "length vs < RMS_WIN")
    case True
    then show ?thesis using snoc.IH by (simp add: rmsFeed_snoc rmsPush_sum cnt)
  next
    case False
    then have ge: "RMS_WIN \<le> length vs" by simp
    have old: "rmsBuf ?s ! rmsHead ?s = vs ! (length vs - RMS_WIN)"
      using rmsFeed_slot [of "length vs - RMS_WIN" vs] ge
      by (simp add: hd RMS_WIN_def le_mod_geq)
    have "drop (length vs - RMS_WIN) vs = vs ! (length vs - RMS_WIN) # drop (Suc (length vs - RMS_WIN)) vs"
      using ge by (simp add: Cons_nth_drop_Suc RMS_WIN_def)
    moreover have "Suc (length vs) - RMS_WIN = Suc (length vs - RMS_WIN)"
      using ge by simp
    moreover have "Suc 0 - RMS_WIN = 0"
      by (simp add: RMS_WIN_def)
    ultimately show ?thesis
      using snoc.IH ge by (simp add: rmsFeed_snoc rmsPush_sum cnt old)
  qed
qed

lemma rmsFeed_inv:
  "rmsSumSq (rmsFeed vs globals0) =
     (\<Sum>i<rmsCount (rmsFeed vs globals0). rmsBuf (rmsFeed vs globals0) ! i * rmsBuf (rmsFeed vs globals0) ! i)"
proof (induction vs rule: rev_induct)
  case Nil
  show ?case by (simp add: globals0_def)
next
  case (snoc v vs)
  let ?s = "rmsFeed vs globals0"
  have len: "length (rmsBuf ?s) = RMS_WIN" and cnt: "rmsCount ?s = min (length vs) RMS_WIN"
    and hd: "rmsHead ?s = length vs mod RMS_WIN"
    using rmsFeed_shape [of vs] by simp_all
  show ?case
  proof (cases "length vs < RMS_WIN")
    case True
    then have c: "rmsCount ?s = length vs" and h: "rmsHead ?s = length vs"
      by (simp_all add: cnt hd)
    show ?thesis
      using snoc.IH True by (simp add: rmsFeed_snoc rmsPush_sum rmsPush_count rmsPush_buf c h len)
  next
    case False
    then have c: "rmsCount ?s = RMS_WIN" by (simp add: cnt)
    have h: "rmsHead ?s < RMS_WIN" by (simp add: hd RMS_WIN_def)
    let ?f = "\<lambda>i. (rmsBuf ?s)[rmsHead ?s := v] ! i * (rmsBuf ?s)[rmsHead ?s := v] ! i"
    let ?g = "\<lambda>i. rmsBuf ?s ! i * rmsBuf ?s ! i"
    have "(\<Sum>i<RMS_WIN. ?f i) = ?f (rmsHead ?s) + (\<Sum>i\<in>{..<RMS_WIN} - {rmsHead ?s}. ?f i)"
      using h by (simp add: sum.remove)
    moreover have "(\<Sum>i<RMS_WIN. ?g i) = ?g (rmsHead ?s) + (\<Sum>i\<in>{..<RMS_WIN} - {rmsHead ?s}. ?g i)"
      using h by (simp add: sum.remove)
    moreover have "(\<Sum>i\<in>{..<RMS_WIN} - {rmsHead ?s}. ?f i) = (\<Sum>i\<in>{..<RMS_WIN} - {rmsHead ?s}. ?g i)"
      by (rule sum.cong) simp_all
    moreover have "?f (rmsHead ?s) = v * v"
      using h by (simp add: len)
    ultimately show ?thesis
      using snoc.IH False by (simp add: rmsFeed_snoc rmsPush_sum rmsPush_count rmsPush_buf c)
  qed
qed


lemma rmsLast_eq:
  assumes "vs \<noteq> []"
  shows "rmsLast vs globals0 =
    sqrt ((\<Sum>x\<leftarrow>drop (length vs - RMS_WIN) vs. x * x) / real (min (length vs) RMS_WIN))"
proof -
  have "snd (rmsPush (last vs) (rmsFeed (butlast vs) globals0)) = rmsFeed vs globals0"
    using assms rmsFeed_snoc [of "butlast vs" "last vs" globals0] by simp
  moreover have "max (min (length vs) RMS_WIN) 1 = min (length vs) RMS_WIN"
    using assms by (cases vs) (simp_all add: RMS_WIN_def)
  ultimately show ?thesis
    using rmsFeed_shape [of vs]
    by (simp add: rmsLast_def rmsPush_ret [of "last vs" "rmsFeed (butlast vs) globals0"] rmsFeed_sum)
qed


text \<open>
  Claim C2. From the initial globals (count 0, sum 0), after any sequence of pushes the
  running sum is the sum of the squares of the occupied slots (the first \<open>rmsCount\<close>
  ones), the count is at most 25, and the running sum is not negative. Arithmetic is
  exact here.
\<close>

theorem rmsWindow_invariant:
  "rmsCount globals0 = 0 \<and> rmsSumSq globals0 = 0 \<and> RMS_WIN = 25 \<and>
   rmsSumSq (rmsFeed vs globals0) =
     (\<Sum>i<rmsCount (rmsFeed vs globals0). (rmsBuf (rmsFeed vs globals0) ! i)\<^sup>2) \<and>
   rmsCount (rmsFeed vs globals0) \<le> RMS_WIN \<and>
   0 \<le> rmsSumSq (rmsFeed vs globals0)"
proof -
  have eq: "rmsSumSq (rmsFeed vs globals0) =
     (\<Sum>i<rmsCount (rmsFeed vs globals0). (rmsBuf (rmsFeed vs globals0) ! i)\<^sup>2)"
    using rmsFeed_inv [of vs] by (simp add: power2_eq_square)
  have "0 \<le> (\<Sum>i<rmsCount (rmsFeed vs globals0). (rmsBuf (rmsFeed vs globals0) ! i)\<^sup>2)"
    by (rule sum_nonneg) simp
  with eq have "0 \<le> rmsSumSq (rmsFeed vs globals0)" by simp
  moreover have "rmsCount (rmsFeed vs globals0) \<le> RMS_WIN"
    using rmsFeed_shape [of vs] by simp
  moreover have "rmsCount globals0 = 0 \<and> rmsSumSq globals0 = 0 \<and> RMS_WIN = 25"
    by (simp add: globals0_def RMS_WIN_def)
  ultimately show ?thesis using eq by simp
qed

subsection \<open>The window in binary32\<close>

text \<open>
  The same bookkeeping for \<open>rmsPush32\<close>, and the running sum on three runs: ones then
  zeros, where every operation is exact; a sample of 4 followed by samples of \<open>2\<^sup>-\<^sup>1\<^sup>1\<close>,
  whose squares \<open>2\<^sup>-\<^sup>2\<^sup>2\<close> are lost when added to 16; and zeros alone.
\<close>

lemma rmsPush32_count:
  "rmsCount32 (snd (rmsPush32 v w)) = (if rmsCount32 w < RMS_WIN then rmsCount32 w + 1 else rmsCount32 w)"
  by (simp add: rmsPush32_def Let_def)

lemma rmsPush32_head: "rmsHead32 (snd (rmsPush32 v w)) = (rmsHead32 w + 1) mod RMS_WIN"
  by (simp add: rmsPush32_def Let_def)

lemma rmsPush32_buf: "rmsBuf32 (snd (rmsPush32 v w)) = (rmsBuf32 w)[rmsHead32 w := v]"
  by (simp add: rmsPush32_def Let_def)

lemma rmsPush32_sum:
  "rmsSumSq32 (snd (rmsPush32 v w)) =
     (if rmsCount32 w < RMS_WIN then fadd (rmsSumSq32 w) (fmul v v)
      else fadd (fsub (rmsSumSq32 w) (fmul (rmsBuf32 w ! rmsHead32 w) (rmsBuf32 w ! rmsHead32 w)))
             (fmul v v))"
  by (simp add: rmsPush32_def Let_def)

lemma rmsPush32_ret:
  "fst (rmsPush32 v w) =
     fsqrt (fdiv (rmsSumSq32 (snd (rmsPush32 v w)))
              (Fin (real (if rmsCount32 (snd (rmsPush32 v w)) = 0 then 1
                          else rmsCount32 (snd (rmsPush32 v w))))))"
  by (simp add: rmsPush32_def Let_def)

lemma rmsFeed32_snoc: "rmsFeed32 (vs @ [v]) w = snd (rmsPush32 v (rmsFeed32 vs w))"
  by (induction vs arbitrary: w) simp_all

lemma rmsFeed32_shape:
  "length (rmsBuf32 (rmsFeed32 vs window0)) = RMS_WIN \<and>
   rmsCount32 (rmsFeed32 vs window0) = min (length vs) RMS_WIN \<and>
   rmsHead32 (rmsFeed32 vs window0) = length vs mod RMS_WIN"
proof (induction vs rule: rev_induct)
  case Nil
  show ?case by (simp add: window0_def)
next
  case (snoc v vs)
  then show ?case
    by (simp add: rmsFeed32_snoc rmsPush32_count rmsPush32_head rmsPush32_buf mod_Suc_eq min_def)
qed

lemma rmsFeed32_slot:
  "j < length vs \<Longrightarrow> length vs \<le> j + RMS_WIN \<Longrightarrow>
   rmsBuf32 (rmsFeed32 vs window0) ! (j mod RMS_WIN) = vs ! j"
proof (induction vs rule: rev_induct)
  case Nil
  then show ?case by simp
next
  case (snoc v vs)
  let ?w = "rmsFeed32 vs window0"
  have len: "length (rmsBuf32 ?w) = RMS_WIN" and hd: "rmsHead32 ?w = length vs mod RMS_WIN"
    using rmsFeed32_shape [of vs] by simp_all
  show ?case
  proof (cases "j = length vs")
    case True
    then show ?thesis
      by (simp add: rmsFeed32_snoc rmsPush32_buf len hd RMS_WIN_def)
  next
    case False
    with snoc.prems have jl: "j < length vs" and near: "length vs \<le> j + RMS_WIN"
      and gap: "length vs - j < RMS_WIN"
      by simp_all
    have "j mod RMS_WIN \<noteq> length vs mod RMS_WIN"
    proof
      assume "j mod RMS_WIN = length vs mod RMS_WIN"
      then have "(length vs - j) mod RMS_WIN = 0"
        using jl by (metis less_imp_le_nat mod_eq_dvd_iff_nat dvd_imp_mod_0)
      with gap jl show False by (simp add: RMS_WIN_def)
    qed
    then show ?thesis
      using snoc.IH [OF jl near] jl by (simp add: rmsFeed32_snoc rmsPush32_buf hd nth_append)
  qed
qed

lemma rmsFeed32_sum_fill:
  assumes "length vs < RMS_WIN"
  shows "rmsSumSq32 (rmsFeed32 (vs @ [v]) window0) =
    fadd (rmsSumSq32 (rmsFeed32 vs window0)) (fmul v v)"
  using assms rmsFeed32_shape [of vs] by (simp add: rmsFeed32_snoc rmsPush32_sum)

lemma rmsFeed32_sum_evict:
  assumes "RMS_WIN \<le> length vs"
  shows "rmsSumSq32 (rmsFeed32 (vs @ [v]) window0) =
    fadd (fsub (rmsSumSq32 (rmsFeed32 vs window0))
            (fmul (vs ! (length vs - RMS_WIN)) (vs ! (length vs - RMS_WIN))))
      (fmul v v)"
proof -
  have "rmsBuf32 (rmsFeed32 vs window0) ! rmsHead32 (rmsFeed32 vs window0) = vs ! (length vs - RMS_WIN)"
    using rmsFeed32_slot [of "length vs - RMS_WIN" vs] rmsFeed32_shape [of vs] assms
    by (simp add: RMS_WIN_def le_mod_geq)
  then show ?thesis
    using assms rmsFeed32_shape [of vs] by (simp add: rmsFeed32_snoc rmsPush32_sum)
qed

lemma rmsLast32_eq:
  assumes "vs \<noteq> []"
  shows "rmsLast32 vs window0 =
    fsqrt (fdiv (rmsSumSq32 (rmsFeed32 vs window0)) (Fin (real (min (length vs) RMS_WIN))))"
proof -
  have "snd (rmsPush32 (last vs) (rmsFeed32 (butlast vs) window0)) = rmsFeed32 vs window0"
    using assms rmsFeed32_snoc [of "butlast vs" "last vs" window0] by simp
  then show ?thesis
    using rmsFeed32_shape [of vs] assms
    by (auto simp add: rmsLast32_def rmsPush32_ret [of "last vs" "rmsFeed32 (butlast vs) window0"]
        RMS_WIN_def min_def split: if_splits)
qed


lemma rnd_real_nat: "n < 2 ^ 24 \<Longrightarrow> rnd (real n) = Fin (real n)"
  using rnd_int [of "int n"] by simp

lemma rnd_zero: "rnd 0 = Fin 0"
  using rnd_int [of 0] by simp

lemma rnd_q22: "j \<le> 25 \<Longrightarrow> rnd (- real j / 4194304) = Fin (- real j / 4194304)"
  using rnd_dyadic [of "- int j" "- 22"] by (simp add: power_int_minus field_simps)

lemma rnd_absorbed: "rnd (16 + 1 / 4194304) = Fin 16"
  by (simp add: rnd_def f32_at [where e = 4] f32_eval FLT_MAX_def)

lemma ones_fill:
  "k \<le> 25 \<Longrightarrow> rmsSumSq32 (rmsFeed32 (replicate k (Fin 1)) window0) = Fin (real k)"
proof (induction k)
  case 0
  show ?case by (simp add: window0_def)
next
  case (Suc k)
  have "replicate (Suc k) (Fin 1) = replicate k (Fin 1) @ [Fin 1]"
    by (simp add: replicate_append_same)
  moreover have "rnd (real k + 1) = Fin (real k + 1)"
    using rnd_real_nat [of "Suc k"] Suc.prems by (simp add: add.commute)
  ultimately show ?case
    using Suc rmsFeed32_sum_fill [of "replicate k (Fin 1)" "Fin 1"]
    by (simp add: RMS_WIN_def rnd_real_nat [of 1, simplified])
qed

lemma ones_drain:
  "j \<le> 25 \<Longrightarrow>
   rmsSumSq32 (rmsFeed32 (replicate 25 (Fin 1) @ replicate j (Fin 0)) window0) = Fin (real (25 - j))"
proof (induction j)
  case 0
  show ?case using ones_fill [of 25] by simp
next
  case (Suc j)
  let ?vs = "replicate 25 (Fin 1) @ replicate j (Fin 0)"
  have e: "replicate 25 (Fin 1) @ replicate (Suc j) (Fin 0) = ?vs @ [Fin 0]"
    by (simp add: replicate_append_same)
  have old: "?vs ! (length ?vs - RMS_WIN) = Fin 1"
    using Suc.prems by (simp add: RMS_WIN_def nth_append)
  have "rnd (real (25 - j) - 1) = Fin (real (25 - Suc j))"
    using rnd_real_nat [of "25 - Suc j"] Suc.prems by simp
  then show ?case
    using Suc rmsFeed32_sum_evict [of ?vs "Fin 0"]
    unfolding e old
    by (simp add: RMS_WIN_def fsub_def rnd_zero rnd_real_nat [of 1, simplified])
qed

lemma ones_then_zeros:
  "rmsLast32 (replicate RMS_WIN (Fin 1) @ replicate RMS_WIN (Fin 0)) window0 = Fin 0"
  using ones_drain [of 25]
  by (simp add: rmsLast32_eq RMS_WIN_def rnd_zero)

lemma fmul_tiny: "fmul (Fin (1 / 2048)) (Fin (1 / 2048)) = Fin (1 / 4194304)"
  using rnd_dyadic [of 1 "- 22"] by (simp add: power_int_minus)

lemma fmul_zero: "fmul (Fin 0) (Fin 0) = Fin 0"
  by (simp add: rnd_zero)

lemma fadd_absorbed: "fadd (Fin 16) (Fin (1 / 4194304)) = Fin 16"
  by (simp only: fadd.simps rnd_absorbed)

lemma spike_fill:
  "k \<le> 24 \<Longrightarrow>
   rmsSumSq32 (rmsFeed32 (Fin 4 # replicate k (Fin (1 / 2048))) window0) = Fin 16"
proof (induction k)
  case 0
  show ?case
    using rmsFeed32_sum_fill [of "[]" "Fin 4"] rnd_real_nat [of 16]
    by (simp add: RMS_WIN_def window0_def)
next
  case (Suc k)
  let ?vs = "Fin 4 # replicate k (Fin (1 / 2048))"
  have e: "Fin 4 # replicate (Suc k) (Fin (1 / 2048)) = ?vs @ [Fin (1 / 2048)]"
    by (simp add: replicate_append_same)
  have len: "length ?vs < RMS_WIN"
    using Suc.prems by (simp add: RMS_WIN_def)
  have ih: "rmsSumSq32 (rmsFeed32 ?vs window0) = Fin 16"
    using Suc by simp
  show ?case
    unfolding e rmsFeed32_sum_fill [OF len] ih fmul_tiny fadd_absorbed ..
qed

lemma spike_drain:
  "j \<le> 24 \<Longrightarrow>
   rmsSumSq32 (rmsFeed32 (Fin 4 # replicate 24 (Fin (1 / 2048)) @ replicate (Suc j) (Fin 0)) window0)
     = Fin (- real j / 4194304)"
proof (induction j)
  case 0
  let ?vs = "Fin 4 # replicate 24 (Fin (1 / 2048))"
  have e: "Fin 4 # replicate 24 (Fin (1 / 2048)) @ replicate (Suc 0) (Fin 0) = ?vs @ [Fin 0]"
    by simp
  have len: "RMS_WIN \<le> length ?vs"
    by (simp add: RMS_WIN_def)
  have old: "?vs ! (length ?vs - RMS_WIN) = Fin 4"
    by (simp add: RMS_WIN_def)
  have m: "fmul (Fin 4) (Fin 4) = Fin 16"
    using rnd_real_nat [of 16] by simp
  have s: "fsub (Fin 16) (Fin 16) = Fin 0"
    by (simp add: fsub_def rnd_zero)
  have a: "fadd (Fin 0) (Fin 0) = Fin 0"
    by (simp add: rnd_zero)
  have ih: "rmsSumSq32 (rmsFeed32 ?vs window0) = Fin 16"
    using spike_fill [of 24] by simp
  show ?case
    unfolding e rmsFeed32_sum_evict [OF len] old ih m s fmul_zero a by simp
next
  case (Suc j)
  let ?vs = "Fin 4 # replicate 24 (Fin (1 / 2048)) @ replicate (Suc j) (Fin 0)"
  have e: "Fin 4 # replicate 24 (Fin (1 / 2048)) @ replicate (Suc (Suc j)) (Fin 0) = ?vs @ [Fin 0]"
    by (simp add: replicate_append_same)
  have len: "RMS_WIN \<le> length ?vs"
    by (simp add: RMS_WIN_def)
  have old: "?vs ! (length ?vs - RMS_WIN) = Fin (1 / 2048)"
    using Suc.prems by (simp add: RMS_WIN_def nth_append nth_Cons')
  have ih: "rmsSumSq32 (rmsFeed32 ?vs window0) = Fin (- real j / 4194304)"
    using Suc by simp
  have q: "rnd (- real (Suc j) / 4194304) = Fin (- real (Suc j) / 4194304)"
    using Suc.prems by (intro rnd_q22) simp
  have "- real j / 4194304 + - (1 / 4194304) = - real (Suc j) / 4194304"
    by (simp add: field_simps)
  then have s: "fsub (Fin (- real j / 4194304)) (Fin (1 / 4194304)) = Fin (- real (Suc j) / 4194304)"
    using q by (simp only: fsub_def fneg.simps fadd.simps)
  have a: "fadd (Fin (- real (Suc j) / 4194304)) (Fin 0) = Fin (- real (Suc j) / 4194304)"
    using q by (simp only: fadd.simps add_0_right)
  show ?case
    unfolding e rmsFeed32_sum_evict [OF len] old ih fmul_tiny s fmul_zero a ..
qed

lemma spike_result:
  "rmsLast32 (Fin 4 # replicate 24 (Fin (1 / 2048)) @ replicate 25 (Fin 0)) window0 = NaN"
proof -
  have "rnd (- (24 / 4194304) / 25) = Fin (- 16106127 / 70368744177664)"
    by (simp add: rnd_def f32_at [where e = "- 23"] f32_eval FLT_MAX_def)
  then show ?thesis
    using spike_drain [of 24]
    by (simp add: rmsLast32_eq RMS_WIN_def)
qed

lemma zeros_result: "rmsLast32 (replicate 25 (Fin 0)) window0 = Fin 0"
proof -
  have "rmsSumSq32 (rmsFeed32 (replicate k (Fin 0)) window0) = Fin 0" if "k \<le> 25" for k
    using that
  proof (induction k)
    case 0
    show ?case by (simp add: window0_def)
  next
    case (Suc k)
    have "replicate (Suc k) (Fin 0) = replicate k (Fin 0) @ [Fin 0]"
      by (simp add: replicate_append_same)
    then show ?case
      using Suc rmsFeed32_sum_fill [of "replicate k (Fin 0)" "Fin 0"]
      by (simp add: RMS_WIN_def rnd_zero)
  qed
  from this [of 25] show ?thesis
    by (simp add: rmsLast32_eq RMS_WIN_def rnd_zero)
qed

text \<open>
  Claim C3, as the sketch has it. In exact arithmetic, after exactly 25 pushes the last
  result is the square root of the mean of the 25 squares; after 25 or more it is the
  square root of the mean of the squares of the last 25 values, so two sequences with the
  same last 25 values give the same result. In binary32 the running sum keeps the rounding
  of samples that have left the window, and the result is not a function of the last 25
  values. Pushing 25 ones and then 25 zeros gives exactly 0, in exact arithmetic and in
  binary32.
\<close>

theorem rmsWindow_trailing:
  "(length vs = RMS_WIN \<longrightarrow>
      rmsLast vs globals0 = sqrt ((\<Sum>x\<leftarrow>vs. x\<^sup>2) / real RMS_WIN)) \<and>
   (RMS_WIN \<le> length vs \<longrightarrow>
      rmsLast vs globals0 =
        sqrt ((\<Sum>x\<leftarrow>drop (length vs - RMS_WIN) vs. x\<^sup>2) / real RMS_WIN)) \<and>
   (RMS_WIN \<le> length vs \<and> RMS_WIN \<le> length ws \<and>
    drop (length vs - RMS_WIN) vs = drop (length ws - RMS_WIN) ws \<longrightarrow>
      rmsLast vs globals0 = rmsLast ws globals0) \<and>
   rmsLast (replicate RMS_WIN 1 @ replicate RMS_WIN 0) globals0 = 0 \<and>
   rmsLast32 (replicate RMS_WIN (Fin 1) @ replicate RMS_WIN (Fin 0)) window0 = Fin 0 \<and>
   drop (length (Fin 4 # replicate 24 (Fin (1 / 2048)) @ replicate 25 (Fin 0)) - RMS_WIN)
     (Fin 4 # replicate 24 (Fin (1 / 2048)) @ replicate 25 (Fin 0))
     = drop (length (replicate 25 (Fin 0 :: fval)) - RMS_WIN) (replicate 25 (Fin 0)) \<and>
   rmsLast32 (Fin 4 # replicate 24 (Fin (1 / 2048)) @ replicate 25 (Fin 0)) window0
     \<noteq> rmsLast32 (replicate 25 (Fin 0)) window0"
proof -
  have ne: "RMS_WIN \<le> length us \<Longrightarrow> us \<noteq> []" for us :: "real list"
    by (auto simp: RMS_WIN_def)
  have tail: "rmsLast us globals0 =
      sqrt ((\<Sum>x\<leftarrow>drop (length us - RMS_WIN) us. x\<^sup>2) / real RMS_WIN)"
    if "RMS_WIN \<le> length us" for us
    using that rmsLast_eq [OF ne [OF that]] by (simp add: power2_eq_square min_def)
  have a: "length vs = RMS_WIN \<longrightarrow>
      rmsLast vs globals0 = sqrt ((\<Sum>x\<leftarrow>vs. x\<^sup>2) / real RMS_WIN)"
    using tail [of vs] by simp
  have b: "RMS_WIN \<le> length vs \<and> RMS_WIN \<le> length ws \<and>
    drop (length vs - RMS_WIN) vs = drop (length ws - RMS_WIN) ws \<longrightarrow>
      rmsLast vs globals0 = rmsLast ws globals0"
    using tail [of vs] tail [of ws] by simp
  have c: "rmsLast (replicate RMS_WIN 1 @ replicate RMS_WIN 0) globals0 = 0"
    using tail [of "replicate RMS_WIN 1 @ replicate RMS_WIN 0"] by (simp add: sum_list_replicate)
  have d: "drop (length (Fin 4 # replicate 24 (Fin (1 / 2048)) @ replicate 25 (Fin 0)) - RMS_WIN)
     (Fin 4 # replicate 24 (Fin (1 / 2048)) @ replicate 25 (Fin 0))
     = drop (length (replicate 25 (Fin 0 :: fval)) - RMS_WIN) (replicate 25 (Fin 0)) \<and>
   rmsLast32 (Fin 4 # replicate 24 (Fin (1 / 2048)) @ replicate 25 (Fin 0)) window0
     \<noteq> rmsLast32 (replicate 25 (Fin 0)) window0"
    by (simp add: spike_result zeros_result RMS_WIN_def)
  show ?thesis using a b c d tail [of vs] ones_then_zeros by blast
qed

theorem rmsWindow_trailing_witness:
  "length (replicate 25 (2::real)) = RMS_WIN \<and>
   rmsLast (replicate 25 2) globals0 = 2 \<and>
   RMS_WIN \<le> length (replicate 3 7 @ replicate 25 (2::real)) \<and>
   RMS_WIN \<le> length (replicate 25 (2::real)) \<and>
   drop (length (replicate 3 7 @ replicate 25 (2::real)) - RMS_WIN) (replicate 3 7 @ replicate 25 2)
     = drop (length (replicate 25 (2::real)) - RMS_WIN) (replicate 25 2) \<and>
   rmsLast (replicate 3 7 @ replicate 25 2) globals0 = 2"
  using rmsWindow_trailing [of "replicate 25 2" "replicate 3 7 @ replicate 25 2"]
    rmsWindow_trailing [of "replicate 3 7 @ replicate 25 2" "replicate 25 2"]
  by (simp add: RMS_WIN_def sum_list_replicate)

text \<open>
  Two runs of \<open>rmsPush32\<close> with the same last 25 values, all zero. After a sample of 4
  and 24 samples of \<open>2\<^sup>-\<^sup>1\<^sup>1\<close> the running sum is still 16; the zeros then take out 16 and
  24 times \<open>2\<^sup>-\<^sup>2\<^sup>2\<close>, which leaves a negative sum and a NaN. The zeros alone give 0.
  Every square in this run is itself a binary32 value, so the only rounding is that of the
  additions, whether or not the compiler fuses a multiplication with the addition after it.
\<close>

theorem rmsWindow_binary32_counterexample:
  "drop (length (Fin 4 # replicate 24 (Fin (1 / 2048)) @ replicate 25 (Fin 0)) - RMS_WIN)
     (Fin 4 # replicate 24 (Fin (1 / 2048)) @ replicate 25 (Fin 0)) = replicate 25 (Fin 0) \<and>
   rmsSumSq32 (rmsFeed32 (Fin 4 # replicate 24 (Fin (1 / 2048))) window0) = Fin 16 \<and>
   rmsSumSq32 (rmsFeed32 (Fin 4 # replicate 24 (Fin (1 / 2048)) @ replicate 25 (Fin 0)) window0)
     = Fin (- 24 / 4194304) \<and>
   rmsLast32 (Fin 4 # replicate 24 (Fin (1 / 2048)) @ replicate 25 (Fin 0)) window0 = NaN \<and>
   rmsLast32 (replicate 25 (Fin 0)) window0 = Fin 0"
  using spike_fill [of 24] spike_drain [of 24] spike_result zeros_result
  by (simp add: RMS_WIN_def)

subsection \<open>One pass of the loop\<close>

lemma hpUpdate_simps:
  "fst (hpUpdate m s) = hp_alpha s * (hp_prev s + (m - mag_prev s))"
  "hp_prev (snd (hpUpdate m s)) = hp_alpha s * (hp_prev s + (m - mag_prev s))"
  "mag_prev (snd (hpUpdate m s)) = m"
  "hp_alpha (snd (hpUpdate m s)) = hp_alpha s"
  "rmsBuf (snd (hpUpdate m s)) = rmsBuf s" "rmsCount (snd (hpUpdate m s)) = rmsCount s"
  "rmsHead (snd (hpUpdate m s)) = rmsHead s" "rmsSumSq (snd (hpUpdate m s)) = rmsSumSq s"
  "nextTick (snd (hpUpdate m s)) = nextTick s" "mpuAddr (snd (hpUpdate m s)) = mpuAddr s"
  "lastImuPublishMs (snd (hpUpdate m s)) = lastImuPublishMs s"
  "lastHeartbeatMs (snd (hpUpdate m s)) = lastHeartbeatMs s"
  "imuLog (snd (hpUpdate m s)) = imuLog s" "heartbeatLog (snd (hpUpdate m s)) = heartbeatLog s"
  by (simp_all add: hpUpdate_def Let_def)

lemma loopHeartbeat_pipeline: "pipeline (loopHeartbeat now s) = pipeline s"
  "nextTick (loopHeartbeat now s) = nextTick s" "mpuAddr (loopHeartbeat now s) = mpuAddr s"
  by (simp_all add: loopHeartbeat_def pipeline_def)

lemma loopImu_idle: "\<not> tickDue now s \<Longrightarrow> loopImu now rd s = s"
  by (simp add: loopImu_def)

lemma loopImu_fail: "tickDue now s \<Longrightarrow> mpuAddr s = 0 \<or> readAccel_g rd = None \<Longrightarrow>
   loopImu now rd s = s\<lparr>nextTick := nextTick s + DT_MS\<rparr>"
  by (auto simp add: loopImu_def Let_def)

lemma publishDue_rmsPush: "publishDue now (snd (rmsPush v s)) = publishDue now s"
  by (simp add: publishDue_def rmsPush_others)

lemma publishDue_hpUpdate: "publishDue now (snd (hpUpdate m s)) = publishDue now s"
  by (simp add: publishDue_def hpUpdate_simps)

lemma loopImu_ok:
  assumes "tickDue now s" "mpuAddr s \<noteq> 0" "readAccel_g rd = Some (ax, ay, az)"
  shows "loopImu now rd s =
    (let mag = sqrt (ax * ax + ay * ay + az * az);
         u = hpUpdate mag (s\<lparr>nextTick := nextTick s + DT_MS\<rparr>);
         r = rmsPush \<bar>fst u\<bar> (snd u)
     in if publishDue now s
        then (snd r)\<lparr> lastImuPublishMs := now,
               imuLog := imuLog s @
                 [\<lparr> j_ms = now, j_ax = ax, j_ay = ay, j_az = az, j_mag = mag,
                    j_hp_abs = \<bar>fst u\<bar>, j_rms = fst r,
                    j_label = classifyLabel (Fin (fst r)) \<rparr>] \<rparr>
        else snd r)"
  using assms
  by (simp add: loopImu_def Let_def case_prod_beta publishDue_rmsPush publishDue_hpUpdate
      rmsPush_others hpUpdate_simps publishDue_def)

lemma loopImu_hp_alpha: "hp_alpha (loopImu now rd s) = hp_alpha s"
  by (simp add: loopImu_def Let_def case_prod_beta hpUpdate_simps rmsPush_others split: option.split)

lemma loop_hp_alpha: "hp_alpha (loop now rd s) = hp_alpha s"
  using loopHeartbeat_pipeline(1) [of now "loopImu now rd s"]
  by (simp add: loop_def pipeline_def loopImu_hp_alpha)

lemma loopRun_hp_alpha: "hp_alpha (loopRun ins s) = hp_alpha s"
  by (induction ins s rule: loopRun.induct) (simp_all add: loop_hp_alpha)


lemma loopHeartbeat_fields:
  "hp_alpha (loopHeartbeat now s) = hp_alpha s" "hp_prev (loopHeartbeat now s) = hp_prev s"
  "mag_prev (loopHeartbeat now s) = mag_prev s" "rmsBuf (loopHeartbeat now s) = rmsBuf s"
  "rmsCount (loopHeartbeat now s) = rmsCount s" "rmsHead (loopHeartbeat now s) = rmsHead s"
  "rmsSumSq (loopHeartbeat now s) = rmsSumSq s"
  "lastImuPublishMs (loopHeartbeat now s) = lastImuPublishMs s"
  "imuLog (loopHeartbeat now s) = imuLog s"
  by (simp_all add: loopHeartbeat_def)

lemma pipeline_ok:
  assumes "tickDue now s" "mpuAddr s \<noteq> 0" "readAccel_g rd = Some (ax, ay, az)"
  shows "pipeline (loopImu now rd s) =
    (let mag = sqrt (ax * ax + ay * ay + az * az);
         hp = hp_alpha s * (hp_prev s + (mag - mag_prev s));
         sq = (if rmsCount s < RMS_WIN then rmsSumSq s + \<bar>hp\<bar> * \<bar>hp\<bar>
               else rmsSumSq s - rmsBuf s ! rmsHead s * rmsBuf s ! rmsHead s + \<bar>hp\<bar> * \<bar>hp\<bar>);
         cnt = (if rmsCount s < RMS_WIN then rmsCount s + 1 else rmsCount s);
         rms = sqrt (sq / real (max cnt 1))
     in (hp_alpha s, hp, mag, (rmsBuf s)[rmsHead s := \<bar>hp\<bar>], cnt, (rmsHead s + 1) mod RMS_WIN, sq,
         if publishDue now s then now else lastImuPublishMs s,
         if publishDue now s
         then imuLog s @ [\<lparr> j_ms = now, j_ax = ax, j_ay = ay, j_az = az, j_mag = mag,
                    j_hp_abs = \<bar>hp\<bar>, j_rms = rms, j_label = classifyLabel (Fin rms) \<rparr>]
         else imuLog s))"
  unfolding loopImu_ok [OF assms] pipeline_def Let_def
  by (simp add: rmsPush_count rmsPush_head rmsPush_buf rmsPush_sum rmsPush_ret rmsPush_others
      hpUpdate_simps)

lemma publishDue_cong: "pipeline s = pipeline t \<Longrightarrow> publishDue now s = publishDue now t"
  by (simp add: pipeline_def publishDue_def)

lemma loopImu_pipeline_cong:
  assumes eq: "pipeline s = pipeline t" and ad: "mpuAddr s = mpuAddr t"
    and due: "tickDue now s = tickDue now t"
  shows "pipeline (loopImu now rd s) = pipeline (loopImu now rd t)"
proof (cases "tickDue now s")
  case False
  with due eq show ?thesis by (simp add: loopImu_idle)
next
  case True
  then have dt: "tickDue now t" using due by simp
  show ?thesis
  proof (cases "mpuAddr s = 0 \<or> readAccel_g rd = None")
    case skip: True
    then have "mpuAddr t = 0 \<or> readAccel_g rd = None" using ad by simp
    then show ?thesis
      using eq by (simp add: loopImu_fail [OF True skip] loopImu_fail [OF dt] pipeline_def)
  next
    case ok: False
    then obtain ax ay az where rd: "readAccel_g rd = Some (ax, ay, az)" and a: "mpuAddr s \<noteq> 0"
      by (cases "readAccel_g rd") auto
    from a ad have a': "mpuAddr t \<noteq> 0" by simp
    have f: "hp_alpha s = hp_alpha t" "hp_prev s = hp_prev t" "mag_prev s = mag_prev t"
      "rmsBuf s = rmsBuf t" "rmsCount s = rmsCount t" "rmsHead s = rmsHead t"
      "rmsSumSq s = rmsSumSq t" "lastImuPublishMs s = lastImuPublishMs t" "imuLog s = imuLog t"
      using eq by (simp_all add: pipeline_def)
    show ?thesis
      unfolding pipeline_ok [OF True a rd] pipeline_ok [OF dt a' rd] f publishDue_cong [OF eq]
      by (rule refl)
  qed
qed

lemma loop_pipeline: "pipeline (loop now rd s) = pipeline (loopImu now rd s)"
  by (simp add: loop_def pipeline_def loopHeartbeat_fields)

lemma loop_pipeline_cong:
  assumes "pipeline s = pipeline t" "mpuAddr s = mpuAddr t" "tickDue now s = tickDue now t"
  shows "pipeline (loop now rd s) = pipeline (loop now rd t)"
  using loopImu_pipeline_cong [OF assms] by (simp add: loop_pipeline)

lemma loop_fail_pipeline:
  assumes "tickDue now s"
  shows "pipeline (loop now None s) = pipeline s"
    and "nextTick (loop now None s) = nextTick s + DT_MS"
    and "mpuAddr (loop now None s) = mpuAddr s"
proof -
  have "loopImu now None s = s\<lparr>nextTick := nextTick s + DT_MS\<rparr>"
    using assms by (intro loopImu_fail) (simp_all add: readAccel_g_def)
  then show "pipeline (loop now None s) = pipeline s"
    and "nextTick (loop now None s) = nextTick s + DT_MS"
    and "mpuAddr (loop now None s) = mpuAddr s"
    by (simp_all add: loop_pipeline loop_def loopHeartbeat_pipeline) (simp add: pipeline_def)
qed

lemma mpuInit_found: "mpuInit (\<lambda>a. a = 0x68) ms globals0 = (True, ready0 ms)"
  by (simp add: mpuInit_def ready0_def globals0_def upt_rec Let_def)

lemma sample_z1: "readAccel_g (Some (0, 0, 0, 0, 0x20, 0)) = Some (0, 0, 1)"
  by (simp add: readAccel_g_def be16_def LSB_PER_G_def)

subsection \<open>The high-pass filter\<close>

text \<open>
  The closed form of the coefficient has \<open>pi\<close>. Machin's formula and the alternating
  series of the arc tangent place \<open>pi\<close> between 3.1415926 and 3.1415927.
\<close>

lemma arctan_partial_sums:
  fixes x :: real
  assumes "0 < x" "x \<le> 1"
  shows "(\<Sum>i<2 * n. (- 1) ^ i * (1 / real (i * 2 + 1) * x ^ (i * 2 + 1))) \<le> arctan x"
    and "arctan x \<le> (\<Sum>i<2 * n + 1. (- 1) ^ i * (1 / real (i * 2 + 1) * x ^ (i * 2 + 1)))"
proof -
  let ?a = "\<lambda>i. 1 / real (i * 2 + 1) * x ^ (i * 2 + 1)"
  have ax: "\<bar>x\<bar> \<le> 1" using assms by simp
  have pos: "0 < ?a 0" using assms by simp
  have "(\<Sum>i. (- 1) ^ i * ?a i) \<in> {\<Sum>i<2 * n. (- 1) ^ i * ?a i .. \<Sum>i<2 * n + 1. (- 1) ^ i * ?a i}"
    using summable_Leibniz(2) [OF zeroseq_arctan_series [OF ax] monoseq_arctan_series [OF ax]] pos
    by blast
  then show "(\<Sum>i<2 * n. (- 1) ^ i * ?a i) \<le> arctan x"
    and "arctan x \<le> (\<Sum>i<2 * n + 1. (- 1) ^ i * ?a i)"
    by (simp_all add: arctan_series [OF ax])
qed

lemma pi_bounds: "31415926 / 10000000 < pi" "pi < 31415927 / 10000000"
proof -
  have l5: "(\<Sum>i<2 * 3. (- 1) ^ i * (1 / real (i * 2 + 1) * (1 / 5) ^ (i * 2 + 1))) \<le> arctan (1 / 5)"
    by (rule arctan_partial_sums) simp_all
  have u5: "arctan (1 / 5) \<le> (\<Sum>i<2 * 2 + 1. (- 1) ^ i * (1 / real (i * 2 + 1) * (1 / 5) ^ (i * 2 + 1)))"
    by (rule arctan_partial_sums) simp_all
  have l239: "(\<Sum>i<2 * 1. (- 1) ^ i * (1 / real (i * 2 + 1) * (1 / 239) ^ (i * 2 + 1))) \<le> arctan (1 / 239)"
    by (rule arctan_partial_sums) simp_all
  have u239: "arctan (1 / 239) \<le> (\<Sum>i<2 * 1 + 1. (- 1) ^ i * (1 / real (i * 2 + 1) * (1 / 239) ^ (i * 2 + 1)))"
    by (rule arctan_partial_sums) simp_all
  have p: "pi = 16 * arctan (1 / 5) - 4 * arctan (1 / 239)"
    using machin by simp
  show "31415926 / 10000000 < pi"
    using l5 u239 unfolding p
    by (simp add: lessThan_nat_numeral eval_nat_numeral)
  show "pi < 31415927 / 10000000"
    using u5 l239 unfolding p
    by (simp add: lessThan_nat_numeral eval_nat_numeral)
qed

lemma hpAlpha_value: "hpAlpha FS_HZ HP_FC_HZ = 16266199 / 16777216"
proof -
  have a: "f32 (31415926 / 10000000) = 6588397 / 2097152"
    by (simp add: f32_at [where e = 1] f32_eval)
  have b: "f32 (2 * (6588397 / 2097152)) = 6588397 / 1048576"
    by (simp add: f32_at [where e = 2] f32_eval)
  have c: "f32 (6588397 / 1048576 * (1 / 2)) = 6588397 / 2097152"
    by (simp add: f32_at [where e = 1] f32_eval)
  have d: "f32 (1 / (6588397 / 2097152)) = 2670177 / 8388608"
    by (simp add: f32_at [where e = "- 2"] f32_eval)
  have e: "f32 (1 / 100) = 5368709 / 536870912"
    by (simp add: f32_at [where e = "- 7"] f32_eval)
  have f: "f32 (2670177 / 8388608 + 5368709 / 536870912) = 2754063 / 8388608"
    by (simp add: f32_at [where e = "- 2"] f32_eval)
  have g: "f32 (2670177 / 8388608 / (2754063 / 8388608)) = 16266199 / 16777216"
    by (simp add: f32_at [where e = "- 1"] f32_eval)
  show ?thesis
    unfolding hpAlpha_def Let_def FS_HZ_def HP_FC_HZ_def a b c d e f g by (rule refl)
qed


lemma hpAlpha_closed_form:
  "\<bar>hpAlpha FS_HZ HP_FC_HZ - (1 / (2 * pi * HP_FC_HZ)) / (1 / (2 * pi * HP_FC_HZ) + 1 / FS_HZ)\<bar>
     < 1 / 10 ^ 7"
proof -
  have eq: "(1 / (2 * pi * HP_FC_HZ)) / (1 / (2 * pi * HP_FC_HZ) + 1 / FS_HZ) = 100 / (100 + pi)"
    using pi_gt_zero by (simp add: HP_FC_HZ_def FS_HZ_def field_simps)
  have pos: "0 < 100 + pi" using pi_gt_zero by linarith
  show ?thesis
    unfolding eq hpAlpha_value using pi_bounds pos
    by (simp add: abs_less_iff field_simps)
qed

lemma mpuInit_scan:
  "pipeline (foldl (\<lambda>st a. if c st a then st\<lparr>mpuAddr := a\<rparr> else st) s xs) = pipeline s"
  "nextTick (foldl (\<lambda>st a. if c st a then st\<lparr>mpuAddr := a\<rparr> else st) s xs) = nextTick s"
  by (induction xs arbitrary: s) (simp_all add: pipeline_def)

lemma mpuInit_ok:
  assumes "mpuInit ack ms s = (True, s')"
  shows "hp_alpha s' = hpAlpha FS_HZ HP_FC_HZ" "nextTick s' = ms" "mpuAddr s' \<noteq> 0"
    "hp_prev s' = hp_prev s" "mag_prev s' = mag_prev s"
  using assms mpuInit_scan(1) [of "\<lambda>st a. ack a \<and> (a = 0x68 \<or> a = 0x69) \<and> mpuAddr st = 0" s "map of_nat [1..<127]"]
  by (auto simp add: mpuInit_def Let_def pipeline_def split: if_splits)






lemma loop_ok_filter:
  assumes "tickDue now s" "mpuAddr s \<noteq> 0" "readAccel_g rd = Some (ax, ay, az)"
  shows "hp_prev (loop now rd s) = fst (hpUpdate (sqrt (ax * ax + ay * ay + az * az)) s)"
    and "mag_prev (loop now rd s) = sqrt (ax * ax + ay * ay + az * az)"
proof -
  have "pipeline (loop now rd s) = pipeline (loopImu now rd s)"
    by (rule loop_pipeline)
  then have "hp_prev (loop now rd s) = hp_prev (loopImu now rd s)"
    and "mag_prev (loop now rd s) = mag_prev (loopImu now rd s)"
    by (simp_all add: pipeline_def)
  moreover have "hp_prev (loopImu now rd s) = fst (hpUpdate (sqrt (ax * ax + ay * ay + az * az)) s)"
    and "mag_prev (loopImu now rd s) = sqrt (ax * ax + ay * ay + az * az)"
    using pipeline_ok [OF assms] by (simp_all add: pipeline_def Let_def hpUpdate_simps)
  ultimately show "hp_prev (loop now rd s) = fst (hpUpdate (sqrt (ax * ax + ay * ay + az * az)) s)"
    and "mag_prev (loop now rd s) = sqrt (ax * ax + ay * ay + az * az)"
    by simp_all
qed

text \<open>
  Claim C4. When \<open>mpuInit\<close> finds the device it sets the coefficient to
  \<open>RC / (RC + dt)\<close> with \<open>dt = 1 / fs\<close>, \<open>RC = 1 / (2 * 3.1415926 * fc)\<close>, \<open>fs = 100\<close>
  and \<open>fc = 0.5\<close>, every operation rounded to binary32. The value stored is
  \<open>16266199 / 2\<^sup>2\<^sup>4\<close>, within \<open>10\<^sup>-\<^sup>7\<close> (less than the binary32 epsilon) of the closed form
  with \<open>pi\<close>. No run of the loop changes it. Every update with a new magnitude \<open>m\<close>
  computes \<open>hp = alpha * (hp_prev + (m - mag_prev))\<close>, stores \<open>hp\<close> and \<open>m\<close> as the
  previous values and yields \<open>hp\<close>; a pass of the loop whose tick is due and whose read
  succeeds does exactly this with the magnitude of the sample. Both previous values start at
  0, so the first output is \<open>alpha * m\<close>.
\<close>

theorem hp_coefficient_fixed:
  assumes "mpuInit ack ms globals0 = (True, s0)"
  shows "FS_HZ = 100 \<and> HP_FC_HZ = 1 / 2 \<and>
    hp_alpha s0 = hpAlpha FS_HZ HP_FC_HZ \<and>
    hpAlpha FS_HZ HP_FC_HZ =
      f32 (f32 (1 / f32 (f32 (2 * f32 (31415926 / 10000000)) * HP_FC_HZ))
           / f32 (f32 (1 / f32 (f32 (2 * f32 (31415926 / 10000000)) * HP_FC_HZ))
                  + f32 (1 / FS_HZ))) \<and>
    hpAlpha FS_HZ HP_FC_HZ = 16266199 / 16777216 \<and>
    \<bar>hp_alpha s0 - (1 / (2 * pi * HP_FC_HZ)) / (1 / (2 * pi * HP_FC_HZ) + 1 / FS_HZ)\<bar>
      < 1 / 10 ^ 7 \<and>
    hp_alpha (loopRun ins s0) = hp_alpha s0 \<and>
    fst (hpUpdate m s) = hp_alpha s * (hp_prev s + (m - mag_prev s)) \<and>
    hp_prev (snd (hpUpdate m s)) = fst (hpUpdate m s) \<and>
    mag_prev (snd (hpUpdate m s)) = m \<and>
    hp_alpha (snd (hpUpdate m s)) = hp_alpha s \<and>
    (tickDue now s \<and> mpuAddr s \<noteq> 0 \<and> readAccel_g rd = Some (ax, ay, az) \<longrightarrow>
       hp_prev (loop now rd s) = fst (hpUpdate (sqrt (ax * ax + ay * ay + az * az)) s) \<and>
       mag_prev (loop now rd s) = sqrt (ax * ax + ay * ay + az * az) \<and>
       hp_alpha (loop now rd s) = hp_alpha s) \<and>
    hp_prev s0 = 0 \<and> mag_prev s0 = 0 \<and>
    fst (hpUpdate m s0) = hp_alpha s0 * m \<and>
    (tickDue now s0 \<and> readAccel_g rd = Some (ax, ay, az) \<longrightarrow>
       hp_prev (loop now rd s0) = hp_alpha s0 * sqrt (ax * ax + ay * ay + az * az))"
proof -
  note i = mpuInit_ok [OF assms]
  have z: "hp_prev s0 = 0" "mag_prev s0 = 0"
    using i(4,5) by (simp_all add: globals0_def)
  have c: "FS_HZ = 100 \<and> HP_FC_HZ = 1 / 2"
    by (simp add: FS_HZ_def HP_FC_HZ_def)
  have d: "hpAlpha FS_HZ HP_FC_HZ =
      f32 (f32 (1 / f32 (f32 (2 * f32 (31415926 / 10000000)) * HP_FC_HZ))
           / f32 (f32 (1 / f32 (f32 (2 * f32 (31415926 / 10000000)) * HP_FC_HZ))
                  + f32 (1 / FS_HZ))) \<and>
    hpAlpha FS_HZ HP_FC_HZ = 16266199 / 16777216"
    using hpAlpha_value by (simp only: hpAlpha_def Let_def)
  have t: "\<bar>hp_alpha s0 - (1 / (2 * pi * HP_FC_HZ)) / (1 / (2 * pi * HP_FC_HZ) + 1 / FS_HZ)\<bar>
      < 1 / 10 ^ 7"
    unfolding i(1) by (rule hpAlpha_closed_form)
  have u: "fst (hpUpdate m s) = hp_alpha s * (hp_prev s + (m - mag_prev s)) \<and>
    hp_prev (snd (hpUpdate m s)) = fst (hpUpdate m s) \<and>
    mag_prev (snd (hpUpdate m s)) = m \<and> hp_alpha (snd (hpUpdate m s)) = hp_alpha s"
    by (simp add: hpUpdate_simps)
  have u0: "fst (hpUpdate m' s0) = hp_alpha s0 * m'" for m'
    by (simp add: hpUpdate_simps z)
  have l: "tickDue now s \<and> mpuAddr s \<noteq> 0 \<and> readAccel_g rd = Some (ax, ay, az) \<longrightarrow>
       hp_prev (loop now rd s) = fst (hpUpdate (sqrt (ax * ax + ay * ay + az * az)) s) \<and>
       mag_prev (loop now rd s) = sqrt (ax * ax + ay * ay + az * az) \<and>
       hp_alpha (loop now rd s) = hp_alpha s"
    using loop_ok_filter [of now s rd ax ay az] by (simp add: loop_hp_alpha)
  have l0: "tickDue now s0 \<and> readAccel_g rd = Some (ax, ay, az) \<longrightarrow>
       hp_prev (loop now rd s0) = hp_alpha s0 * sqrt (ax * ax + ay * ay + az * az)"
    using loop_ok_filter(1) [of now s0 rd ax ay az] i(3) by (simp add: u0)
  show ?thesis
    using c i(1) d t loopRun_hp_alpha [of ins s0] u z u0 [of m] l l0 by blast
qed

theorem hp_coefficient_fixed_witness:
  "mpuInit (\<lambda>a. a = 0x68) 1000 globals0 = (True, ready0 1000) \<and>
   hp_alpha (ready0 1000) = hpAlpha FS_HZ HP_FC_HZ \<and>
   tickDue 1000 (ready0 1000) \<and> mpuAddr (ready0 1000) \<noteq> 0 \<and>
   readAccel_g (Some (0, 0, 0, 0, 0x20, 0)) = Some (0, 0, 1) \<and>
   hp_alpha (loop 1000 (Some (0, 0, 0, 0, 0x20, 0)) (ready0 1000)) = hp_alpha (ready0 1000) \<and>
   hp_prev (loop 1000 (Some (0, 0, 0, 0, 0x20, 0)) (ready0 1000)) = hp_alpha (ready0 1000)"
proof -
  have d: "tickDue 1000 (ready0 1000)"
    by (simp add: tickDue_def ready0_def)
  have a: "mpuAddr (ready0 1000) \<noteq> 0"
    by (simp add: ready0_def)
  show ?thesis
    using hp_coefficient_fixed [OF mpuInit_found [of 1000],
        of "[]" 1 "ready0 1000" 1000 "Some (0, 0, 0, 0, 0x20, 0)" 0 0 1]
      mpuInit_found [of 1000] d a sample_z1
    by simp
qed



subsection \<open>A failed read\<close>

text \<open>
  Claim C8. In a pass where the sample tick is due and a device is present, a failed read
  (\<open>readAccel_g\<close> gives \<open>None\<close>) leaves the filter state, the window state and the
  publish log and timestamp as they were; only the schedule advances by one period. A
  later pass whose tick is due then computes from the state before the failure: it leaves
  the pipeline in the state it would have reached had the failed pass not happened, and
  the filter output is \<open>hp_alpha * (hp_prev + (mag - mag_prev))\<close> with the values from
  before the failure.
\<close>

theorem read_failure_skips_tick:
  assumes "tickDue now s" and "mpuAddr s \<noteq> 0"
  shows "readAccel_g None = None \<and>
    hp_prev (loop now None s) = hp_prev s \<and> mag_prev (loop now None s) = mag_prev s \<and>
    rmsBuf (loop now None s) = rmsBuf s \<and> rmsCount (loop now None s) = rmsCount s \<and>
    rmsHead (loop now None s) = rmsHead s \<and> rmsSumSq (loop now None s) = rmsSumSq s \<and>
    imuLog (loop now None s) = imuLog s \<and>
    lastImuPublishMs (loop now None s) = lastImuPublishMs s \<and>
    pipeline (loop now None s) = pipeline s \<and>
    nextTick (loop now None s) = nextTick s + DT_MS \<and>
    (tickDue now' (loop now None s) \<and> tickDue now' s \<longrightarrow>
       pipeline (loop now' rd' (loop now None s)) = pipeline (loop now' rd' s)) \<and>
    (tickDue now' (loop now None s) \<and> readAccel_g rd' = Some (ax, ay, az) \<longrightarrow>
       hp_prev (loop now' rd' (loop now None s)) =
         hp_alpha s * (hp_prev s + (sqrt (ax * ax + ay * ay + az * az) - mag_prev s)))"
proof -
  let ?s1 = "loop now None s"
  have p: "pipeline ?s1 = pipeline s" and a: "mpuAddr ?s1 = mpuAddr s"
    and n: "nextTick ?s1 = nextTick s + DT_MS"
    using loop_fail_pipeline [OF assms(1)] by simp_all
  have cont: "pipeline (loop now' rd' ?s1) = pipeline (loop now' rd' s)"
    if "tickDue now' ?s1 \<and> tickDue now' s"
    using that by (intro loop_pipeline_cong p a) simp
  have hp: "hp_prev (loop now' rd' ?s1) =
         hp_alpha s * (hp_prev s + (sqrt (ax * ax + ay * ay + az * az) - mag_prev s))"
    if "tickDue now' ?s1 \<and> readAccel_g rd' = Some (ax, ay, az)"
  proof -
    have "pipeline (loopImu now' rd' ?s1) = pipeline (loop now' rd' ?s1)"
      by (simp add: loop_pipeline)
    then have "hp_prev (loop now' rd' ?s1) = hp_prev (loopImu now' rd' ?s1)"
      by (simp add: pipeline_def)
    also have "\<dots> = hp_alpha ?s1 * (hp_prev ?s1 + (sqrt (ax * ax + ay * ay + az * az) - mag_prev ?s1))"
      using that assms(2) a
      by (simp add: loopImu_ok [of now' ?s1 rd' ax ay az] Let_def rmsPush_others hpUpdate_simps)
    finally show ?thesis using p by (simp add: pipeline_def)
  qed
  show ?thesis
    using p n cont hp by (simp add: pipeline_def readAccel_g_def)
qed

theorem read_failure_skips_tick_witness:
  "tickDue 1000 (ready0 1000) \<and> mpuAddr (ready0 1000) \<noteq> 0 \<and>
   pipeline (loop 1000 None (ready0 1000)) = pipeline (ready0 1000) \<and>
   tickDue 1010 (loop 1000 None (ready0 1000)) \<and>
   readAccel_g (Some (0, 0, 0, 0, 0x20, 0)) = Some (0, 0, 1) \<and>
   hp_prev (loop 1010 (Some (0, 0, 0, 0, 0x20, 0)) (loop 1000 None (ready0 1000))) =
     hpAlpha FS_HZ HP_FC_HZ"
proof -
  have d: "tickDue 1000 (ready0 1000)"
    by (simp add: tickDue_def ready0_def)
  have a: "mpuAddr (ready0 1000) \<noteq> 0"
    by (simp add: ready0_def)
  note t = read_failure_skips_tick [OF d a, of 1010 "Some (0, 0, 0, 0, 0x20, 0)" 0 0 1]
  have n: "tickDue 1010 (loop 1000 None (ready0 1000))"
    using t by (simp add: tickDue_def ready0_def DT_MS_def)
  show ?thesis
    using t d a n sample_z1 by (simp add: ready0_def globals0_def)
qed

subsection \<open>The two schedules\<close>

text \<open>
  How one pass moves the schedule: the due time of the sample tick, the time of the last
  publish, and the times in the publish log. None of this depends on the sample values.
\<close>

lemma sint_small: "- (2 ^ 31) \<le> k \<Longrightarrow> k < 2 ^ 31 \<Longrightarrow> sint (word_of_int k :: u32) = k"
  by (simp add: signed_of_int signed_take_bit_int_eq_self)

lemma loopImu_nextTick:
  "nextTick (loopImu now rd s) = (if tickDue now s then nextTick s + DT_MS else nextTick s)"
  by (simp add: loopImu_def Let_def case_prod_beta rmsPush_others hpUpdate_simps split: option.split)

lemma loop_nextTick:
  "nextTick (loop now rd s) = (if tickDue now s then nextTick s + DT_MS else nextTick s)"
  by (simp add: loop_def loopHeartbeat_pipeline loopImu_nextTick)

lemma loop_mpuAddr: "mpuAddr (loop now rd s) = mpuAddr s"
  by (simp add: loop_def loopHeartbeat_pipeline loopImu_def Let_def case_prod_beta rmsPush_others
      hpUpdate_simps split: option.split)

lemma tickDue_late: "d < 2 ^ 31 \<Longrightarrow> tickDue (nextTick s + of_nat d) s"
  using sint_small [of "int d"] by (simp add: tickDue_def)

lemma tickDue_lead:
  assumes "nextTick s = t + of_nat a" "a \<le> 10" "g \<le> 10"
  shows "tickDue (t + of_nat g) s \<longleftrightarrow> a \<le> g"
proof -
  have e: "t + of_nat g - nextTick s = word_of_int (int g - int a)"
    by (simp add: assms(1))
  have h: "sint (word_of_int (int g - int a) :: u32) = int g - int a"
    using assms(2,3) by (intro sint_small) simp_all
  show ?thesis
    by (simp only: tickDue_def e h) simp
qed

lemma firedTicks_lead:
  assumes "\<forall>p\<in>set gs. fst p \<le> 10" "nextTick s = t + of_nat a" "a \<le> 10"
  shows "sum_list (map fst gs) \<le> 10 * firedTicks (passes t gs) s + a \<and>
         10 * firedTicks (passes t gs) s + a \<le> sum_list (map fst gs) + 10"
  using assms
proof (induction gs arbitrary: s t a)
  case Nil
  then show ?case by simp
next
  case (Cons p gs)
  obtain g rd where p: "p = (g, rd)" by (cases p)
  with Cons.prems have g: "g \<le> 10" and rest: "\<forall>p\<in>set gs. fst p \<le> 10" by simp_all
  let ?now = "t + of_nat g"
  let ?s' = "loop ?now rd s"
  have due: "tickDue ?now s \<longleftrightarrow> a \<le> g"
    using Cons.prems(2,3) g by (rule tickDue_lead)
  show ?case
  proof (cases "a \<le> g")
    case True
    have "(of_nat (a + 10 - g) :: u32) = of_nat a + 10 - of_nat g"
      using g by simp
    then have nt: "nextTick ?s' = ?now + of_nat (a + 10 - g)"
      using True due Cons.prems(2) by (simp add: loop_nextTick DT_MS_def)
    have "a + 10 - g \<le> 10" using True by simp
    then have "sum_list (map fst gs) \<le> 10 * firedTicks (passes ?now gs) ?s' + (a + 10 - g) \<and>
         10 * firedTicks (passes ?now gs) ?s' + (a + 10 - g) \<le> sum_list (map fst gs) + 10"
      by (rule Cons.IH [OF rest nt])
    moreover have "firedTicks (passes t (p # gs)) s = 1 + firedTicks (passes ?now gs) ?s'"
      using True due by (simp add: p)
    moreover have "sum_list (map fst (p # gs)) = g + sum_list (map fst gs)"
      by (simp add: p)
    ultimately show ?thesis
      using g True by arith
  next
    case False
    have "(of_nat (a - g) :: u32) = of_nat a - of_nat g"
      using False by simp
    then have nt: "nextTick ?s' = ?now + of_nat (a - g)"
      using False due Cons.prems(2) by (simp add: loop_nextTick)
    have "a - g \<le> 10" using Cons.prems(3) by simp
    then have "sum_list (map fst gs) \<le> 10 * firedTicks (passes ?now gs) ?s' + (a - g) \<and>
         10 * firedTicks (passes ?now gs) ?s' + (a - g) \<le> sum_list (map fst gs) + 10"
      by (rule Cons.IH [OF rest nt])
    moreover have "firedTicks (passes t (p # gs)) s = firedTicks (passes ?now gs) ?s'"
      using False due by (simp add: p)
    moreover have "sum_list (map fst (p # gs)) = g + sum_list (map fst gs)"
      by (simp add: p)
    ultimately show ?thesis
      using g False Cons.prems(3) by arith
  qed
qed


lemma readAccel_g_Some: "readAccel_g (Some r) \<noteq> None"
  by (cases r) (simp add: readAccel_g_def Let_def)

lemma loop_publish:
  assumes "tickDue now s \<and> mpuAddr s \<noteq> 0 \<and> readAccel_g rd \<noteq> None \<and> publishDue now s"
  shows "lastImuPublishMs (loop now rd s) = now"
    and "map j_ms (imuLog (loop now rd s)) = map j_ms (imuLog s) @ [now]"
    and "length (imuLog (loop now rd s)) = Suc (length (imuLog s))"
proof -
  from assms obtain ax ay az where rd: "readAccel_g rd = Some (ax, ay, az)"
    by (cases "readAccel_g rd") auto
  have "pipeline (loop now rd s) = pipeline (loopImu now rd s)"
    by (rule loop_pipeline)
  with assms pipeline_ok [of now s rd ax ay az] rd
  show "lastImuPublishMs (loop now rd s) = now"
    and "map j_ms (imuLog (loop now rd s)) = map j_ms (imuLog s) @ [now]"
    and "length (imuLog (loop now rd s)) = Suc (length (imuLog s))"
    by (simp_all add: pipeline_def Let_def)
qed

lemma loop_no_publish:
  assumes "\<not> (tickDue now s \<and> mpuAddr s \<noteq> 0 \<and> readAccel_g rd \<noteq> None \<and> publishDue now s)"
  shows "lastImuPublishMs (loop now rd s) = lastImuPublishMs s"
    and "imuLog (loop now rd s) = imuLog s"
proof -
  have p: "pipeline (loop now rd s) = pipeline (loopImu now rd s)"
    by (rule loop_pipeline)
  have "lastImuPublishMs (loopImu now rd s) = lastImuPublishMs s \<and> imuLog (loopImu now rd s) = imuLog s"
  proof (cases "tickDue now s")
    case False
    then show ?thesis by (simp add: loopImu_idle)
  next
    case True
    show ?thesis
    proof (cases "mpuAddr s = 0 \<or> readAccel_g rd = None")
      case skip: True
      show ?thesis by (simp add: loopImu_fail [OF True skip])
    next
      case False
      then obtain ax ay az where rd: "readAccel_g rd = Some (ax, ay, az)" and a: "mpuAddr s \<noteq> 0"
        by (cases "readAccel_g rd") auto
      with assms True have "\<not> publishDue now s" by simp
      with pipeline_ok [OF True a rd] show ?thesis
        by (simp add: pipeline_def Let_def)
    qed
  qed
  with p show "lastImuPublishMs (loop now rd s) = lastImuPublishMs s"
    and "imuLog (loop now rd s) = imuLog s"
    by (simp_all add: pipeline_def)
qed

lemma loop_lastPublish:
  "lastImuPublishMs (loop now rd s) =
     (if tickDue now s \<and> mpuAddr s \<noteq> 0 \<and> readAccel_g rd \<noteq> None \<and> publishDue now s
      then now else lastImuPublishMs s)"
  using loop_publish(1) [of now s rd] loop_no_publish(1) [of now s rd] by simp

lemma loop_log_ms:
  "map j_ms (imuLog (loop now rd s)) =
     (if tickDue now s \<and> mpuAddr s \<noteq> 0 \<and> readAccel_g rd \<noteq> None \<and> publishDue now s
      then map j_ms (imuLog s) @ [now] else map j_ms (imuLog s))"
  using loop_publish(2) [of now s rd] loop_no_publish(2) [of now s rd] by simp

lemma firedTicks_bounds:
  assumes "\<forall>p\<in>set gs. fst p \<le> 10" "nextTick s = t"
  shows "sum_list (map fst gs) div 10 \<le> firedTicks (passes t gs) s"
    and "firedTicks (passes t gs) s \<le> sum_list (map fst gs) div 10 + 1"
  using firedTicks_lead [of gs s t 0] assms by simp_all arith+


lemma loop_sched:
  assumes "nextTick s = nt" "lastImuPublishMs s = lp" "mpuAddr s \<noteq> 0"
    "readAccel_g rd \<noteq> None" "map j_ms (imuLog s) = ms"
  shows "nextTick (loop now rd s) = (if 0 \<le> sint (now - nt) then nt + 10 else nt)"
    and "lastImuPublishMs (loop now rd s) =
           (if 0 \<le> sint (now - nt) \<and> 50 \<le> now - lp then now else lp)"
    and "mpuAddr (loop now rd s) \<noteq> 0"
    and "map j_ms (imuLog (loop now rd s)) =
           (if 0 \<le> sint (now - nt) \<and> 50 \<le> now - lp then ms @ [now] else ms)"
    and "tickDue now s \<longleftrightarrow> 0 \<le> sint (now - nt)"
  using assms
  by (simp_all add: loop_nextTick loop_mpuAddr loop_lastPublish loop_log_ms tickDue_def
      publishDue_def DT_MS_def PUBLISH_EVERY_MS_def)

lemma ready0_sched:
  "nextTick (ready0 t) = t" "lastImuPublishMs (ready0 t) = 0" "mpuAddr (ready0 t) \<noteq> 0"
  "map j_ms (imuLog (ready0 t)) = []"
  by (simp_all add: ready0_def globals0_def)

lemma publishDue_fifth:
  assumes "lastImuPublishMs s + of_nat (10 * j) = t" "j < 5"
  shows "publishDue (t + 10) s \<longleftrightarrow> j = 4"
proof -
  have "lastImuPublishMs s = t - of_nat (10 * j)"
    using assms(1) by (simp add: eq_diff_eq)
  then have d: "t + 10 - lastImuPublishMs s = 10 + of_nat (10 * j)"
    by simp
  from assms(2) have "j = 0 \<or> j = 1 \<or> j = 2 \<or> j = 3 \<or> j = 4"
    by arith
  then show ?thesis
    unfolding publishDue_def d PUBLISH_EVERY_MS_def by auto
qed

lemma publish_every_fifth:
  assumes "mpuAddr s \<noteq> 0" "nextTick s = t + 10" "lastImuPublishMs s + of_nat (10 * j) = t" "j < 5"
  shows "firedTicks (passes t (map (\<lambda>r. (10, Some r)) rs)) s = length rs \<and>
    length (imuLog (loopRun (passes t (map (\<lambda>r. (10, Some r)) rs)) s)) =
      length (imuLog s) + (j + length rs) div 5"
  using assms
proof (induction rs arbitrary: s t j)
  case Nil
  then show ?case by simp
next
  case (Cons r rs)
  let ?now = "t + 10"
  let ?s' = "loop ?now (Some r) s"
  have due: "tickDue ?now s"
    by (simp add: tickDue_def Cons.prems(2))
  have pd: "publishDue ?now s \<longleftrightarrow> j = 4"
    using Cons.prems(3,4) by (rule publishDue_fifth)
  have a': "mpuAddr ?s' \<noteq> 0"
    using Cons.prems(1) by (simp add: loop_mpuAddr)
  have n': "nextTick ?s' = ?now + 10"
    using due Cons.prems(2) by (simp add: loop_nextTick DT_MS_def)
  have step: "firedTicks (passes t (map (\<lambda>r. (10, Some r)) (r # rs))) s =
        1 + firedTicks (passes ?now (map (\<lambda>r. (10, Some r)) rs)) ?s'"
    "loopRun (passes t (map (\<lambda>r. (10, Some r)) (r # rs))) s =
        loopRun (passes ?now (map (\<lambda>r. (10, Some r)) rs)) ?s'"
    using due by simp_all
  show ?case
  proof (cases "j = 4")
    case True
    then have e: "tickDue ?now s \<and> mpuAddr s \<noteq> 0 \<and> readAccel_g (Some r) \<noteq> None \<and> publishDue ?now s"
      using due pd Cons.prems(1) readAccel_g_Some by simp
    have l': "lastImuPublishMs ?s' + of_nat (10 * 0) = ?now"
      using loop_publish(1) [OF e] by simp
    have "length (imuLog ?s') = Suc (length (imuLog s))"
      by (rule loop_publish(3) [OF e])
    with Cons.IH [OF a' n' l'] True show ?thesis
      unfolding step by simp
  next
    case False
    then have e: "\<not> (tickDue ?now s \<and> mpuAddr s \<noteq> 0 \<and> readAccel_g (Some r) \<noteq> None \<and> publishDue ?now s)"
      using pd by simp
    have j': "Suc j < 5" using False Cons.prems(4) by simp
    have "(of_nat (10 * Suc j) :: u32) = of_nat (10 * j) + 10"
      by simp
    then have l': "lastImuPublishMs ?s' + of_nat (10 * Suc j) = ?now"
      using loop_no_publish(1) [OF e] Cons.prems(3) by (simp add: add.assoc [symmetric])
    have "imuLog ?s' = imuLog s"
      by (rule loop_no_publish(2) [OF e])
    with Cons.IH [OF a' n' l' j'] show ?thesis
      unfolding step by simp
  qed
qed


lemma loop_emitted_record:
  assumes "tickDue now s \<and> mpuAddr s \<noteq> 0 \<and> readAccel_g rd = Some (ax, ay, az) \<and> publishDue now s"
  shows "imuLog (loop now rd s) = imuLog s @
       [\<lparr> j_ms = now, j_ax = ax, j_ay = ay, j_az = az,
          j_mag = mag_prev (loop now rd s), j_hp_abs = \<bar>hp_prev (loop now rd s)\<bar>,
          j_rms = sqrt (rmsSumSq (loop now rd s) / real (max (rmsCount (loop now rd s)) 1)),
          j_label = classifyLabel
            (Fin (sqrt (rmsSumSq (loop now rd s) / real (max (rmsCount (loop now rd s)) 1)))) \<rparr>]"
proof -
  have "pipeline (loop now rd s) = pipeline (loopImu now rd s)"
    by (rule loop_pipeline)
  with assms pipeline_ok [of now s rd ax ay az] show ?thesis
    by (simp add: pipeline_def Let_def)
qed

text \<open>
  Claim C6, as the sketch has it. The sample tick follows the drift-free rule: when it
  fires, the due time advances by the period of 10 ms from the previous due time, whatever
  the clock reads, and otherwise stays; a due time up to \<open>2\<^sup>3\<^sup>1\<close> ms in the past fires in the
  next pass. In a run whose passes come at most one period apart, starting at the first due
  time, the number of fired ticks is the elapsed time divided by the period, rounded down,
  or one more. The publish trigger is not of that kind: when a record is published the
  sketch remembers the clock value of that pass, so the next publish is due 50 ms after the
  publish itself.
\<close>

theorem sample_tick_drift_free:
  "DT_MS = 10 \<and>
   (tickDue now s \<longrightarrow> nextTick (loop now rd s) = nextTick s + DT_MS) \<and>
   (\<not> tickDue now s \<longrightarrow> nextTick (loop now rd s) = nextTick s) \<and>
   (d < 2 ^ 31 \<longrightarrow> tickDue (nextTick s + of_nat d) s) \<and>
   ((\<forall>p\<in>set gs. fst p \<le> 10) \<and> nextTick s = t \<longrightarrow>
      sum_list (map fst gs) div 10 \<le> firedTicks (passes t gs) s \<and>
      firedTicks (passes t gs) s \<le> sum_list (map fst gs) div 10 + 1) \<and>
   (tickDue now s \<and> mpuAddr s \<noteq> 0 \<and> readAccel_g rd \<noteq> None \<and> publishDue now s \<longrightarrow>
      lastImuPublishMs (loop now rd s) = now)"
  using firedTicks_bounds [of gs s t] tickDue_late [of d s] loop_publish(1) [of now s rd]
  by (simp add: loop_nextTick DT_MS_def)

theorem sample_tick_drift_free_witness:
  "tickDue 1003 (ready0 1000) \<and>
   nextTick (loop 1003 (Some (0, 0, 0, 0, 0x20, 0)) (ready0 1000)) = 1010 \<and>
   \<not> tickDue 1003 (ready0 1005) \<and>
   nextTick (loop 1003 (Some (0, 0, 0, 0, 0x20, 0)) (ready0 1005)) = 1005 \<and>
   (700 :: nat) < 2 ^ 31 \<and> tickDue (nextTick (ready0 1000) + of_nat 700) (ready0 1000) \<and>
   (3 :: nat) \<le> 10 \<and> (9 :: nat) \<le> 10 \<and> (10 :: nat) \<le> 10 \<and> nextTick (ready0 1000) = 1000 \<and>
   2 \<le> firedTicks (passes 1000 [(3, None), (9, None), (10, None)]) (ready0 1000) \<and>
   firedTicks (passes 1000 [(3, None), (9, None), (10, None)]) (ready0 1000) \<le> 3 \<and>
   mpuAddr (ready0 1000) \<noteq> 0 \<and> readAccel_g (Some (0, 0, 0, 0, 0x20, 0)) \<noteq> None \<and>
   publishDue 1003 (ready0 1000) \<and>
   lastImuPublishMs (loop 1003 (Some (0, 0, 0, 0, 0x20, 0)) (ready0 1000)) = 1003"
proof -
  have a: "tickDue 1003 (ready0 1000)" and b: "\<not> tickDue 1003 (ready0 1005)"
    and p: "publishDue 1003 (ready0 1000)"
    by (simp_all add: tickDue_def publishDue_def ready0_sched PUBLISH_EVERY_MS_def)
  have z: "readAccel_g (Some (0, 0, 0, 0, 0x20, 0)) \<noteq> None"
    by (rule readAccel_g_Some)
  have g: "\<forall>p\<in>set [(3 :: nat, None :: raw6 option), (9, None), (10, None)]. fst p \<le> 10"
    by simp
  have d: "(700 :: nat) < 2 ^ 31"
    by simp
  note T = sample_tick_drift_free [of 1003 "ready0 1000" "Some (0, 0, 0, 0, 0x20, 0)" 700
        "[(3, None), (9, None), (10, None)]" 1000]
  note U = sample_tick_drift_free [of 1003 "ready0 1005" "Some (0, 0, 0, 0, 0x20, 0)" 0 "[]" 1005]
  have 1: "nextTick (loop 1003 (Some (0, 0, 0, 0, 0x20, 0)) (ready0 1000)) = nextTick (ready0 1000) + DT_MS"
    using T a by blast
  have 2: "nextTick (loop 1003 (Some (0, 0, 0, 0, 0x20, 0)) (ready0 1005)) = nextTick (ready0 1005)"
    using U b by blast
  have 3: "tickDue (nextTick (ready0 1000) + of_nat 700) (ready0 1000)"
    using T d by blast
  have 4: "sum_list (map fst [(3 :: nat, None :: raw6 option), (9, None), (10, None)]) div 10
        \<le> firedTicks (passes 1000 [(3, None), (9, None), (10, None)]) (ready0 1000) \<and>
      firedTicks (passes 1000 [(3, None), (9, None), (10, None)]) (ready0 1000)
        \<le> sum_list (map fst [(3 :: nat, None :: raw6 option), (9, None), (10, None)]) div 10 + 1"
    using T g ready0_sched(1) [of 1000] by blast
  have 5: "lastImuPublishMs (loop 1003 (Some (0, 0, 0, 0, 0x20, 0)) (ready0 1000)) = 1003"
    using T a p z ready0_sched(3) [of 1000] by blast
  have 6: "sum_list (map fst [(3 :: nat, None :: raw6 option), (9, None), (10, None)]) div 10 = 2"
    by simp
  show ?thesis
    using a b p z d 1 2 3 4 5 ready0_sched(1,3)
    unfolding 6 by (simp only: DT_MS_def) simp
qed

text \<open>
  The publish trigger against the drift-free rule. After a publish at 1000 and four more
  sample ticks, the pass at 1057 publishes and remembers 1057, not the due time 1050, while
  the sample schedule moves to 1060. And two passes 100 ms apart fire two ticks where the
  elapsed time holds ten periods.
\<close>

theorem tick_rules_counterexample:
  "lastImuPublishMs
     (loopRun [(1000, Some (0, 0, 0, 0, 0x20, 0)), (1010, Some (0, 0, 0, 0, 0x20, 0)),
               (1020, Some (0, 0, 0, 0, 0x20, 0)), (1030, Some (0, 0, 0, 0, 0x20, 0)),
               (1040, Some (0, 0, 0, 0, 0x20, 0))] (ready0 1000)) = 1000 \<and>
   lastImuPublishMs
     (loopRun [(1000, Some (0, 0, 0, 0, 0x20, 0)), (1010, Some (0, 0, 0, 0, 0x20, 0)),
               (1020, Some (0, 0, 0, 0, 0x20, 0)), (1030, Some (0, 0, 0, 0, 0x20, 0)),
               (1040, Some (0, 0, 0, 0, 0x20, 0)), (1057, Some (0, 0, 0, 0, 0x20, 0))]
        (ready0 1000)) = 1057 \<and>
   (1057 :: u32) \<noteq> 1000 + PUBLISH_EVERY_MS \<and>
   nextTick
     (loopRun [(1000, Some (0, 0, 0, 0, 0x20, 0)), (1010, Some (0, 0, 0, 0, 0x20, 0)),
               (1020, Some (0, 0, 0, 0, 0x20, 0)), (1030, Some (0, 0, 0, 0, 0x20, 0)),
               (1040, Some (0, 0, 0, 0, 0x20, 0)), (1057, Some (0, 0, 0, 0, 0x20, 0))]
        (ready0 1000)) = 1060 \<and>
   firedTicks (passes 1000 [(0, None), (100, None)]) (ready0 1000) = 2 \<and>
   sum_list (map fst [(0 :: nat, None :: raw6 option), (100, None)]) div 10 = 10"
proof -
  have z: "readAccel_g (Some (0, 0, 0, 0, 0x20, 0)) \<noteq> None"
    by (rule readAccel_g_Some)
  note r = ready0_sched [of 1000]
  note a1 = loop_sched [OF r(1,2,3) z r(4), of 1000, simplified]
  note a2 = loop_sched [OF a1(1,2,3) z a1(4), of 1010, simplified]
  note a3 = loop_sched [OF a2(1,2,3) z a2(4), of 1020, simplified]
  note a4 = loop_sched [OF a3(1,2,3) z a3(4), of 1030, simplified]
  note a5 = loop_sched [OF a4(1,2,3) z a4(4), of 1040, simplified]
  note a6 = loop_sched [OF a5(1,2,3) z a5(4), of 1057, simplified]
  have n: "nextTick (loop 1000 None (ready0 1000)) = 1010"
    by (simp add: loop_nextTick tickDue_def ready0_sched DT_MS_def)
  have f: "firedTicks (passes 1000 [(0, None), (100, None)]) (ready0 1000) = 2"
    by (simp add: tickDue_def n ready0_sched)
  show ?thesis
    using a5(2) a6(1,2) f by (simp add: PUBLISH_EVERY_MS_def)
qed

text \<open>
  Claim C7, as the sketch has it. A record is published only in a pass whose sample tick
  fired on a present device with a successful read, and only when at least 50 ms have
  passed on the clock since the last publish; any other pass, a failed read and a missing
  device included, leaves the log and the publish time alone. The record holds the sample
  of that very pass with the magnitude, filter output, RMS and label just computed from it,
  and the publish time becomes the clock value of the pass. On a present device, when the
  last publish was made at clock value \<open>t - 10 * j\<close> with \<open>j < 5\<close>, the next tick is due
  at \<open>t + 10\<close>, and the following passes come exactly 10 ms apart from \<open>t + 10\<close> on, each
  with a successful read, then every pass fires its tick and \<open>n\<close> passes add
  \<open>(j + n) div 5\<close> records: one record per five sample ticks.
\<close>

theorem publish_inside_sample_tick:
  "PUBLISH_EVERY_MS = 50 \<and> DT_MS = 10 \<and>
   (\<not> (tickDue now s \<and> mpuAddr s \<noteq> 0 \<and> readAccel_g rd \<noteq> None \<and> publishDue now s) \<longrightarrow>
      imuLog (loop now rd s) = imuLog s \<and>
      lastImuPublishMs (loop now rd s) = lastImuPublishMs s) \<and>
   (tickDue now s \<and> mpuAddr s \<noteq> 0 \<and> readAccel_g rd = Some (ax, ay, az) \<and> publishDue now s \<longrightarrow>
      imuLog (loop now rd s) = imuLog s @
        [\<lparr> j_ms = now, j_ax = ax, j_ay = ay, j_az = az,
           j_mag = mag_prev (loop now rd s), j_hp_abs = \<bar>hp_prev (loop now rd s)\<bar>,
           j_rms = sqrt (rmsSumSq (loop now rd s) / real (max (rmsCount (loop now rd s)) 1)),
           j_label = classifyLabel
             (Fin (sqrt (rmsSumSq (loop now rd s) / real (max (rmsCount (loop now rd s)) 1)))) \<rparr>] \<and>
      lastImuPublishMs (loop now rd s) = now \<and>
      mag_prev (loop now rd s) = sqrt (ax * ax + ay * ay + az * az) \<and>
      hp_prev (loop now rd s) =
        hp_alpha s * (hp_prev s + (sqrt (ax * ax + ay * ay + az * az) - mag_prev s))) \<and>
   (mpuAddr s \<noteq> 0 \<and> nextTick s = t + 10 \<and> lastImuPublishMs s + of_nat (10 * j) = t \<and> j < 5 \<longrightarrow>
      firedTicks (passes t (map (\<lambda>r. (10, Some r)) rs)) s = length rs \<and>
      length (imuLog (loopRun (passes t (map (\<lambda>r. (10, Some r)) rs)) s)) =
        length (imuLog s) + (j + length rs) div 5)"
proof -
  have a: "imuLog (loop now rd s) = imuLog s \<and>
      lastImuPublishMs (loop now rd s) = lastImuPublishMs s"
    if "\<not> (tickDue now s \<and> mpuAddr s \<noteq> 0 \<and> readAccel_g rd \<noteq> None \<and> publishDue now s)"
    using loop_no_publish [OF that] by simp
  have b: "imuLog (loop now rd s) = imuLog s @
        [\<lparr> j_ms = now, j_ax = ax, j_ay = ay, j_az = az,
           j_mag = mag_prev (loop now rd s), j_hp_abs = \<bar>hp_prev (loop now rd s)\<bar>,
           j_rms = sqrt (rmsSumSq (loop now rd s) / real (max (rmsCount (loop now rd s)) 1)),
           j_label = classifyLabel
             (Fin (sqrt (rmsSumSq (loop now rd s) / real (max (rmsCount (loop now rd s)) 1)))) \<rparr>] \<and>
      lastImuPublishMs (loop now rd s) = now \<and>
      mag_prev (loop now rd s) = sqrt (ax * ax + ay * ay + az * az) \<and>
      hp_prev (loop now rd s) =
        hp_alpha s * (hp_prev s + (sqrt (ax * ax + ay * ay + az * az) - mag_prev s))"
    if h: "tickDue now s \<and> mpuAddr s \<noteq> 0 \<and> readAccel_g rd = Some (ax, ay, az) \<and> publishDue now s"
  proof -
    from h have h': "tickDue now s \<and> mpuAddr s \<noteq> 0 \<and> readAccel_g rd \<noteq> None \<and> publishDue now s"
      by simp
    from h have d: "tickDue now s" and m: "mpuAddr s \<noteq> 0" and r: "readAccel_g rd = Some (ax, ay, az)"
      by simp_all
    show ?thesis
      using loop_emitted_record [OF h] loop_publish(1) [OF h'] loop_ok_filter [OF d m r]
      by (simp add: hpUpdate_simps)
  qed
  have c: "firedTicks (passes t (map (\<lambda>r. (10, Some r)) rs)) s = length rs \<and>
      length (imuLog (loopRun (passes t (map (\<lambda>r. (10, Some r)) rs)) s)) =
        length (imuLog s) + (j + length rs) div 5"
    if "mpuAddr s \<noteq> 0 \<and> nextTick s = t + 10 \<and> lastImuPublishMs s + of_nat (10 * j) = t \<and> j < 5"
    using that publish_every_fifth [of s t j rs] by blast
  have k: "PUBLISH_EVERY_MS = 50 \<and> DT_MS = 10"
    by (simp add: PUBLISH_EVERY_MS_def DT_MS_def)
  show ?thesis
    using a b c k by blast
qed

theorem publish_inside_sample_tick_witness:
  "tickDue 1000 (ready0 1000) \<and> mpuAddr (ready0 1000) \<noteq> 0 \<and>
   readAccel_g (Some (0, 0, 0, 0, 0x20, 0)) = Some (0, 0, 1) \<and>
   publishDue 1000 (ready0 1000) \<and>
   map j_ms (imuLog (loop 1000 (Some (0, 0, 0, 0, 0x20, 0)) (ready0 1000))) = [1000] \<and>
   map j_az (imuLog (loop 1000 (Some (0, 0, 0, 0, 0x20, 0)) (ready0 1000))) = [1] \<and>
   lastImuPublishMs (loop 1000 (Some (0, 0, 0, 0, 0x20, 0)) (ready0 1000)) = 1000 \<and>
   hp_prev (loop 1000 (Some (0, 0, 0, 0, 0x20, 0)) (ready0 1000)) = hpAlpha FS_HZ HP_FC_HZ \<and>
   \<not> publishDue 1010 (loop 1000 (Some (0, 0, 0, 0, 0x20, 0)) (ready0 1000)) \<and>
   imuLog (loop 1010 (Some (0, 0, 0, 0, 0x20, 0))
             (loop 1000 (Some (0, 0, 0, 0, 0x20, 0)) (ready0 1000))) =
     imuLog (loop 1000 (Some (0, 0, 0, 0, 0x20, 0)) (ready0 1000)) \<and>
   mpuAddr (loop 1000 (Some (0, 0, 0, 0, 0x20, 0)) (ready0 1000)) \<noteq> 0 \<and>
   nextTick (loop 1000 (Some (0, 0, 0, 0, 0x20, 0)) (ready0 1000)) = 1000 + 10 \<and>
   lastImuPublishMs (loop 1000 (Some (0, 0, 0, 0, 0x20, 0)) (ready0 1000)) + of_nat (10 * 0) = 1000 \<and>
   (0 :: nat) < 5 \<and>
   firedTicks (passes 1000 (map (\<lambda>r. (10, Some r)) (replicate 10 (0, 0, 0, 0, 0x20, 0))))
     (loop 1000 (Some (0, 0, 0, 0, 0x20, 0)) (ready0 1000)) = 10 \<and>
   length (imuLog (loopRun
     (passes 1000 (map (\<lambda>r. (10, Some r)) (replicate 10 (0, 0, 0, 0, 0x20, 0))))
     (loop 1000 (Some (0, 0, 0, 0, 0x20, 0)) (ready0 1000)))) = 3"
proof -
  let ?z = "Some (0, 0, 0, 0, 0x20, 0) :: raw6 option"
  let ?s = "loop 1000 ?z (ready0 1000)"
  have z: "readAccel_g ?z \<noteq> None"
    by (rule readAccel_g_Some)
  note r = ready0_sched [of 1000]
  note a1 = loop_sched [OF r(1,2,3) z r(4), of 1000, simplified]
  have d: "tickDue 1000 (ready0 1000)" and p: "publishDue 1000 (ready0 1000)"
    by (simp_all add: tickDue_def publishDue_def r PUBLISH_EVERY_MS_def)
  have np: "\<not> publishDue 1010 ?s"
    by (simp add: publishDue_def a1 PUBLISH_EVERY_MS_def)
  note T1 = publish_inside_sample_tick [of 1000 "ready0 1000" ?z 0 0 1 1000 0 "[]"]
  note T2 = publish_inside_sample_tick [of 1010 ?s ?z 0 0 1 1000 0 "replicate 10 (0, 0, 0, 0, 0x20, 0)"]
  have 1: "imuLog ?s = imuLog (ready0 1000) @
        [\<lparr> j_ms = 1000, j_ax = 0, j_ay = 0, j_az = 1,
           j_mag = mag_prev ?s, j_hp_abs = \<bar>hp_prev ?s\<bar>,
           j_rms = sqrt (rmsSumSq ?s / real (max (rmsCount ?s) 1)),
           j_label = classifyLabel (Fin (sqrt (rmsSumSq ?s / real (max (rmsCount ?s) 1)))) \<rparr>] \<and>
      lastImuPublishMs ?s = 1000 \<and>
      mag_prev ?s = sqrt (0 * 0 + 0 * 0 + 1 * 1) \<and>
      hp_prev ?s = hp_alpha (ready0 1000) *
        (hp_prev (ready0 1000) + (sqrt (0 * 0 + 0 * 0 + 1 * 1) - mag_prev (ready0 1000)))"
    using T1 d p r(3) sample_z1 by blast
  have 2: "imuLog (loop 1010 ?z ?s) = imuLog ?s"
    using T2 np by blast
  have h: "lastImuPublishMs ?s + of_nat (10 * 0) = 1000" "nextTick ?s = 1000 + 10"
    by (simp_all add: a1)
  have 3: "firedTicks (passes 1000 (map (\<lambda>r. (10, Some r)) (replicate 10 (0, 0, 0, 0, 0x20, 0)))) ?s
        = length (replicate 10 (0 :: u8, 0 :: u8, 0 :: u8, 0 :: u8, 0x20 :: u8, 0 :: u8)) \<and>
      length (imuLog (loopRun
        (passes 1000 (map (\<lambda>r. (10, Some r)) (replicate 10 (0, 0, 0, 0, 0x20, 0)))) ?s)) =
        length (imuLog ?s) + (0 + length (replicate 10 (0 :: u8, 0 :: u8, 0 :: u8, 0 :: u8, 0x20 :: u8, 0 :: u8))) div 5"
    by (rule T2 [THEN conjunct2, THEN conjunct2, THEN conjunct2, THEN conjunct2, THEN mp])
      (simp add: a1)
  have 4: "length (imuLog ?s) = 1" "map j_ms (imuLog ?s) = [1000]" "map j_az (imuLog ?s) = [1]"
    "hp_prev ?s = hpAlpha FS_HZ HP_FC_HZ"
    using 1 by (simp_all add: ready0_def globals0_def)
  have 5: "length (replicate 10 (0 :: u8, 0 :: u8, 0 :: u8, 0 :: u8, 0x20 :: u8, 0 :: u8)) = 10"
    by simp
  show ?thesis
    using d p r(3) sample_z1 np 2 a1(3) h 3 4 1 unfolding 5 by (simp only:) simp
qed

text \<open>
  A run with jitter. The first pass comes 2 ms late, at 1002, and publishes; the next six
  sample ticks fire on time. The tick at 1050 finds only 48 ms on the clock since the last
  publish, so the second record waits for the tick at 1060: seven ticks, records at the
  first and the seventh.
\<close>

theorem publish_rate_counterexample:
  "firedTicks [(1002, Some (0, 0, 0, 0, 0x20, 0)), (1010, Some (0, 0, 0, 0, 0x20, 0)),
               (1020, Some (0, 0, 0, 0, 0x20, 0)), (1030, Some (0, 0, 0, 0, 0x20, 0)),
               (1040, Some (0, 0, 0, 0, 0x20, 0)), (1050, Some (0, 0, 0, 0, 0x20, 0)),
               (1060, Some (0, 0, 0, 0, 0x20, 0))] (ready0 1000) = 7 \<and>
   map j_ms (imuLog
     (loopRun [(1002, Some (0, 0, 0, 0, 0x20, 0)), (1010, Some (0, 0, 0, 0, 0x20, 0)),
               (1020, Some (0, 0, 0, 0, 0x20, 0)), (1030, Some (0, 0, 0, 0, 0x20, 0)),
               (1040, Some (0, 0, 0, 0, 0x20, 0)), (1050, Some (0, 0, 0, 0, 0x20, 0)),
               (1060, Some (0, 0, 0, 0, 0x20, 0))] (ready0 1000))) = [1002, 1060]"
proof -
  have z: "readAccel_g (Some (0, 0, 0, 0, 0x20, 0)) \<noteq> None"
    by (rule readAccel_g_Some)
  note r = ready0_sched [of 1000]
  note a1 = loop_sched [OF r(1,2,3) z r(4), of 1002, simplified]
  note a2 = loop_sched [OF a1(1,2,3) z a1(4), of 1010, simplified]
  note a3 = loop_sched [OF a2(1,2,3) z a2(4), of 1020, simplified]
  note a4 = loop_sched [OF a3(1,2,3) z a3(4), of 1030, simplified]
  note a5 = loop_sched [OF a4(1,2,3) z a4(4), of 1040, simplified]
  note a6 = loop_sched [OF a5(1,2,3) z a5(4), of 1050, simplified]
  note a7 = loop_sched [OF a6(1,2,3) z a6(4), of 1060, simplified]
  show ?thesis
    using a1(5) a2(5) a3(5) a4(5) a5(5) a6(5) a7(5) a7(4) by simp
qed

subsection \<open>The classifier\<close>

text \<open>
  Claim C5. The label is a function of the RMS value alone. The four thresholds are the
  binary32 values of 0.03, 0.10, 0.20 and 0.35 (each within \<open>10\<^sup>-\<^sup>8\<close> of its decimal),
  they ascend, and they are tried from the highest down with closed lower bounds: at least
  \<open>TH_JUMP\<close> is JUMP, else at least \<open>TH_KID\<close> is PLAY, else at least \<open>TH_FOOT\<close> is FOOT,
  else at least \<open>TH_STRUCT\<close> is STRUCT, and anything below is CALM. A value equal to a
  threshold gets the higher label; the float 0.10 is FOOT.
\<close>

theorem classifyLabel_thresholds:
  "TH_STRUCT = f32 (3 / 100) \<and> TH_FOOT = f32 (10 / 100) \<and>
   TH_KID = f32 (20 / 100) \<and> TH_JUMP = f32 (35 / 100) \<and>
   TH_STRUCT = 16106127 / 536870912 \<and> TH_FOOT = 13421773 / 134217728 \<and>
   TH_KID = 13421773 / 67108864 \<and> TH_JUMP = 11744051 / 33554432 \<and>
   \<bar>TH_STRUCT - 3 / 100\<bar> < 1 / 10 ^ 8 \<and> \<bar>TH_FOOT - 10 / 100\<bar> < 1 / 10 ^ 8 \<and>
   \<bar>TH_KID - 20 / 100\<bar> < 1 / 10 ^ 8 \<and> \<bar>TH_JUMP - 35 / 100\<bar> < 1 / 10 ^ 8 \<and>
   TH_STRUCT < TH_FOOT \<and> TH_FOOT < TH_KID \<and> TH_KID < TH_JUMP \<and>
   classifyLabel (Fin r) =
     (if TH_JUMP \<le> r then ''JUMP''
      else if TH_KID \<le> r then ''PLAY''
      else if TH_FOOT \<le> r then ''FOOT''
      else if TH_STRUCT \<le> r then ''STRUCT''
      else ''CALM'') \<and>
   classifyLabel (Fin TH_JUMP) = ''JUMP'' \<and>
   classifyLabel (Fin TH_KID) = ''PLAY'' \<and>
   classifyLabel (Fin TH_FOOT) = ''FOOT'' \<and>
   classifyLabel (Fin TH_STRUCT) = ''STRUCT'' \<and>
   classifyLabel (Fin (f32 (10 / 100))) = ''FOOT''"
proof -
  have d: "TH_STRUCT = f32 (3 / 100) \<and> TH_FOOT = f32 (10 / 100) \<and>
      TH_KID = f32 (20 / 100) \<and> TH_JUMP = f32 (35 / 100)"
    by (simp only: TH_STRUCT_def TH_FOOT_def TH_KID_def TH_JUMP_def)
  have f: "classifyLabel (Fin (f32 (10 / 100))) = classifyLabel (Fin TH_FOOT)"
    by (simp only: TH_FOOT_def)
  have c: "classifyLabel (Fin r) =
     (if TH_JUMP \<le> r then ''JUMP''
      else if TH_KID \<le> r then ''PLAY''
      else if TH_FOOT \<le> r then ''FOOT''
      else if TH_STRUCT \<le> r then ''STRUCT''
      else ''CALM'')" for r
    by (simp add: classifyLabel_def)
  have v: "classifyLabel (Fin TH_JUMP) = ''JUMP''" "classifyLabel (Fin TH_KID) = ''PLAY''"
    "classifyLabel (Fin TH_FOOT) = ''FOOT''" "classifyLabel (Fin TH_STRUCT) = ''STRUCT''"
    "\<bar>TH_STRUCT - 3 / 100\<bar> < 1 / 10 ^ 8" "\<bar>TH_FOOT - 10 / 100\<bar> < 1 / 10 ^ 8"
    "\<bar>TH_KID - 20 / 100\<bar> < 1 / 10 ^ 8" "\<bar>TH_JUMP - 35 / 100\<bar> < 1 / 10 ^ 8"
    "TH_STRUCT < TH_FOOT" "TH_FOOT < TH_KID" "TH_KID < TH_JUMP"
    by (simp_all add: c threshold_values)
  show ?thesis
    using d threshold_values c [of r] v f by (simp only:)
qed

text \<open>
  Claim C10. \<open>classifyLabel\<close> answers on every float, finite, infinite or NaN, with one
  of the five labels. On a NaN every comparison is false, so the answer is CALM.
\<close>

theorem classifyLabel_total:
  "classifyLabel x \<in> {''JUMP'', ''PLAY'', ''FOOT'', ''STRUCT'', ''CALM''} \<and>
   \<not> fge NaN (Fin TH_JUMP) \<and> \<not> fge NaN (Fin TH_KID) \<and>
   \<not> fge NaN (Fin TH_FOOT) \<and> \<not> fge NaN (Fin TH_STRUCT) \<and>
   classifyLabel NaN = ''CALM''"
  by (simp add: classifyLabel_def)

end
